theory Spec2Isabelle
  imports Complex_Main
begin

section \<open>Element type\<close>

text \<open>
  The solver is the class template \<open>munkres<eT>\<close>; the driver instantiates it at
  \<open>double\<close>.  An element is modelled as an exact real number or one of the three
  special values of IEEE arithmetic.  Rounding of finite results is not modelled.
\<close>

datatype val = Fin real | PInf | NInf | NaN

fun is_finite :: "val \<Rightarrow> bool" where
  "is_finite (Fin a) = True"
| "is_finite PInf = False"
| "is_finite NInf = False"
| "is_finite NaN = False"

fun is_inf :: "val \<Rightarrow> bool" where
  "is_inf (Fin a) = False"
| "is_inf PInf = True"
| "is_inf NInf = True"
| "is_inf NaN = False"

fun vadd :: "val \<Rightarrow> val \<Rightarrow> val" where
  "vadd (Fin a) (Fin b) = Fin (a + b)"
| "vadd (Fin a) PInf = PInf"
| "vadd (Fin a) NInf = NInf"
| "vadd (Fin a) NaN = NaN"
| "vadd PInf (Fin b) = PInf"
| "vadd PInf PInf = PInf"
| "vadd PInf NInf = NaN"
| "vadd PInf NaN = NaN"
| "vadd NInf (Fin b) = NInf"
| "vadd NInf PInf = NaN"
| "vadd NInf NInf = NInf"
| "vadd NInf NaN = NaN"
| "vadd NaN y = NaN"

fun vsub :: "val \<Rightarrow> val \<Rightarrow> val" where
  "vsub (Fin a) (Fin b) = Fin (a - b)"
| "vsub (Fin a) PInf = NInf"
| "vsub (Fin a) NInf = PInf"
| "vsub (Fin a) NaN = NaN"
| "vsub PInf (Fin b) = PInf"
| "vsub PInf PInf = NaN"
| "vsub PInf NInf = PInf"
| "vsub PInf NaN = NaN"
| "vsub NInf (Fin b) = NInf"
| "vsub NInf PInf = NInf"
| "vsub NInf NInf = NaN"
| "vsub NInf NaN = NaN"
| "vsub NaN y = NaN"

text \<open>The comparisons \<open><\<close> and \<open>==\<close>; both are false as soon as one side is NaN.\<close>

fun vlt :: "val \<Rightarrow> val \<Rightarrow> bool" where
  "vlt (Fin a) (Fin b) = (a < b)"
| "vlt (Fin a) PInf = True"
| "vlt (Fin a) NInf = False"
| "vlt (Fin a) NaN = False"
| "vlt PInf y = False"
| "vlt NInf (Fin b) = True"
| "vlt NInf PInf = True"
| "vlt NInf NInf = False"
| "vlt NInf NaN = False"
| "vlt NaN y = False"

definition veq :: "val \<Rightarrow> val \<Rightarrow> bool" where
  "veq x y = (x = y \<and> x \<noteq> NaN)"

section \<open>Matrices\<close>

text \<open>
  An Armadillo matrix carries its two dimensions and its elements; \<open>cell m r c\<close> is
  \<open>m.at(r, c)\<close>.  Only cells inside the dimensions are ever read.
\<close>

record 'a Mat =
  n_rows :: nat
  n_cols :: nat
  cell :: "nat \<Rightarrow> nat \<Rightarrow> 'a"

definition of_rows :: "'a \<Rightarrow> 'a list list \<Rightarrow> 'a Mat" where
  "of_rows z xss =
     \<lparr>n_rows = length xss,
      n_cols = (case xss of [] \<Rightarrow> 0 | xs # _ \<Rightarrow> length xs),
      cell = (\<lambda>r c. if r < length xss \<and> c < length (xss ! r) then xss ! r ! c else z)\<rparr>"

definition is_square :: "'a Mat \<Rightarrow> bool" where
  "is_square m = (n_rows m = n_cols m)"

text \<open>The elements in storage order, which is column by column.\<close>

definition elems :: "'a Mat \<Rightarrow> 'a list" where
  "elems m = concat (map (\<lambda>c. map (\<lambda>r. cell m r c) [0..<n_rows m]) [0..<n_cols m])"

definition set_cell :: "'a Mat \<Rightarrow> nat \<Rightarrow> nat \<Rightarrow> 'a \<Rightarrow> 'a Mat" where
  "set_cell m r c v = m\<lparr>cell := (\<lambda>i j. if i = r \<and> j = c then v else cell m i j)\<rparr>"

text \<open>\<open>resize\<close> keeps the elements of the common region and sets new elements to zero.\<close>

definition resize :: "'a \<Rightarrow> nat \<Rightarrow> nat \<Rightarrow> 'a Mat \<Rightarrow> 'a Mat" where
  "resize z r c m =
     \<lparr>n_rows = r, n_cols = c,
      cell = (\<lambda>i j. if i < n_rows m \<and> j < n_cols m then cell m i j else z)\<rparr>"

definition fill_cols :: "nat \<Rightarrow> nat \<Rightarrow> 'a \<Rightarrow> 'a Mat \<Rightarrow> 'a Mat" where
  "fill_cols a b v m = m\<lparr>cell := (\<lambda>i j. if a \<le> j \<and> j \<le> b then v else cell m i j)\<rparr>"

definition fill_rows :: "nat \<Rightarrow> nat \<Rightarrow> 'a \<Rightarrow> 'a Mat \<Rightarrow> 'a Mat" where
  "fill_rows a b v m = m\<lparr>cell := (\<lambda>i j. if a \<le> i \<and> i \<le> b then v else cell m i j)\<rparr>"

datatype failure = LogicError | AssertionFailed

text \<open>
  The library's \<open>max\<close> over a collection of elements: a scan with \<open>></\<close> started at the
  most negative value; it raises \<open>std::logic_error\<close> on a collection without elements.
\<close>

definition direct_max :: "val list \<Rightarrow> val" where
  "direct_max xs = fold (\<lambda>x mx. if vlt mx x then x else mx) xs NInf"

definition arma_max :: "val list \<Rightarrow> failure + val" where
  "arma_max xs = (if xs = [] then Inl LogicError else Inr (direct_max xs))"

definition has_inf :: "val Mat \<Rightarrow> bool" where
  "has_inf m = list_ex is_inf (elems m)"

definition find_finite :: "val Mat \<Rightarrow> val list" where
  "find_finite m = filter is_finite (elems m)"

definition fill_nonfinite :: "val \<Rightarrow> val Mat \<Rightarrow> val Mat" where
  "fill_nonfinite v m = m\<lparr>cell := (\<lambda>i j. if is_finite (cell m i j) then cell m i j else v)\<rparr>"

text \<open>
  \<open>min(m, 1)\<close> is the vector of row minima (the first column, then a scan with \<open><\<close>
  over the other columns); \<open>min(m, 0)\<close> is the vector of column minima (a scan with
  \<open><\<close> started at the most positive value).
\<close>

definition row_min :: "val Mat \<Rightarrow> nat \<Rightarrow> val" where
  "row_min m r =
     fold (\<lambda>c mn. if vlt (cell m r c) mn then cell m r c else mn) [1..<n_cols m] (cell m r 0)"

definition col_min :: "val Mat \<Rightarrow> nat \<Rightarrow> val" where
  "col_min m c =
     fold (\<lambda>r mn. if vlt (cell m r c) mn then cell m r c else mn) [0..<n_rows m] PInf"

definition sub_row_min :: "val Mat \<Rightarrow> val Mat" where
  "sub_row_min m = m\<lparr>cell := (\<lambda>i j. vsub (cell m i j) (row_min m i))\<rparr>"

definition sub_col_min :: "val Mat \<Rightarrow> val Mat" where
  "sub_col_min m = m\<lparr>cell := (\<lambda>i j. vsub (cell m i j) (col_min m j))\<rparr>"

section \<open>The solver object\<close>

datatype mark = NORMAL | STAR | PRIME

record munkres =
  matrix_m :: "val Mat"
  mask_m :: "mark Mat"
  row_mask_m :: "nat \<Rightarrow> bool"
  col_mask_m :: "nat \<Rightarrow> bool"
  saverow_m :: nat
  savecol_m :: nat


text \<open>
  A field \<open>x_m\<close> of the record is the member \<open>x_\<close> of the class.
  The two cover vectors have length \<open>size\<close> and are read and written below that index
  only; each is modelled as a function from the index.  \<open>saverow_m\<close> and \<open>savecol_m\<close> are
  not initialised by the class, so a fresh object holds arbitrary numbers there.
\<close>

subsection \<open>Step 1\<close>

definition star_in_col :: "mark Mat \<Rightarrow> nat \<Rightarrow> nat \<Rightarrow> bool" where
  "star_in_col msk rows col = list_ex (\<lambda>nrow. cell msk nrow col = STAR) [0..<rows]"

definition star_in_row :: "mark Mat \<Rightarrow> nat \<Rightarrow> nat \<Rightarrow> bool" where
  "star_in_row msk columns row = list_ex (\<lambda>ncol. cell msk row ncol = STAR) [0..<columns]"

definition step1_cell :: "val Mat \<Rightarrow> nat \<times> nat \<Rightarrow> mark Mat \<Rightarrow> mark Mat" where
  "step1_cell m rc msk =
     (let row = fst rc; col = snd rc in
      if veq (Fin 0) (cell m row col) then
        (if \<not> star_in_col msk (n_rows m) col \<and> \<not> star_in_row msk (n_cols m) row
         then set_cell msk row col STAR else msk)
      else msk)"

definition step1 :: "munkres \<Rightarrow> nat \<times> munkres" where
  "step1 s =
     (let rows = n_rows (matrix_m s); columns = n_cols (matrix_m s) in
      (2, s\<lparr>mask_m := fold (step1_cell (matrix_m s))
                         (List.product [0..<rows] [0..<columns]) (mask_m s)\<rparr>))"

subsection \<open>Step 2\<close>

definition step2_cell :: "mark Mat \<Rightarrow> nat \<times> nat \<Rightarrow> (nat \<Rightarrow> bool) \<times> nat \<Rightarrow> (nat \<Rightarrow> bool) \<times> nat" where
  "step2_cell msk rc acc =
     (if cell msk (fst rc) (snd rc) = STAR then ((fst acc)(snd rc := True), Suc (snd acc))
      else acc)"

definition step2 :: "munkres \<Rightarrow> nat \<times> munkres" where
  "step2 s =
     (let rows = n_rows (matrix_m s); columns = n_cols (matrix_m s);
          acc = fold (step2_cell (mask_m s)) (List.product [0..<rows] [0..<columns])
                  (col_mask_m s, 0);
          s' = s\<lparr>col_mask_m := fst acc\<rparr>
      in if snd acc \<ge> min rows columns then (0, s') else (3, s'))"

subsection \<open>Step 3\<close>

text \<open>
  \<open>find_uncovered\<close> scans column by column and writes its two loop counters through
  the references it is given; the result is the returned flag and the final counters.
\<close>

primrec find_uncovered_cols ::
  "val Mat \<Rightarrow> (nat \<Rightarrow> bool) \<Rightarrow> (nat \<Rightarrow> bool) \<Rightarrow> val \<Rightarrow> nat list \<Rightarrow> nat \<Rightarrow> bool \<times> nat \<times> nat" where
  "find_uncovered_cols m rm cm item [] row = (False, row, n_cols m)"
| "find_uncovered_cols m rm cm item (col # cs) row =
     (if \<not> cm col then
        (case find (\<lambda>r. \<not> rm r \<and> veq (cell m r col) item) [0..<n_rows m] of
           Some r \<Rightarrow> (True, r, col)
         | None \<Rightarrow> find_uncovered_cols m rm cm item cs (n_rows m))
      else find_uncovered_cols m rm cm item cs row)"

definition find_uncovered :: "val \<Rightarrow> munkres \<Rightarrow> bool \<times> nat \<times> nat" where
  "find_uncovered item s =
     find_uncovered_cols (matrix_m s) (row_mask_m s) (col_mask_m s) item
       [0..<n_cols (matrix_m s)] (saverow_m s)"

definition step3 :: "munkres \<Rightarrow> nat \<times> munkres" where
  "step3 s =
     (let res = find_uncovered (Fin 0) s;
          s1 = s\<lparr>saverow_m := fst (snd res), savecol_m := snd (snd res)\<rparr>
      in if fst res then
           (let s2 = s1\<lparr>mask_m := set_cell (mask_m s1) (saverow_m s1) (savecol_m s1) PRIME\<rparr> in
            case find (\<lambda>col. cell (mask_m s2) (saverow_m s2) col = STAR)
                   [0..<n_cols (matrix_m s2)] of
              Some col \<Rightarrow>
                (3, s2\<lparr>row_mask_m := (row_mask_m s2)(saverow_m s2 := True),
                       col_mask_m := (col_mask_m s2)(col := False)\<rparr>)
            | None \<Rightarrow> (4, s2))
         else (5, s1))"

subsection \<open>Step 4\<close>

text \<open>
  The \<open>do ... while\<close> loop that builds the alternating sequence.  Each \<open>for\<close> loop
  stops at the first cell with the wanted mark that is not yet in the sequence.
\<close>

function step4_loop ::
  "mark Mat \<Rightarrow> nat \<Rightarrow> nat \<Rightarrow> nat \<Rightarrow> (nat \<times> nat) list \<Rightarrow> (nat \<times> nat) list" where
  "step4_loop msk rows columns col seq =
     (case find (\<lambda>row. cell msk row col = STAR \<and> (row, col) \<notin> set seq) [0..<rows] of
        None \<Rightarrow> seq
      | Some row \<Rightarrow>
          (case find (\<lambda>c. cell msk row c = PRIME \<and> (row, c) \<notin> set (seq @ [(row, col)]))
                  [0..<columns] of
             None \<Rightarrow> seq @ [(row, col)]
           | Some c \<Rightarrow> step4_loop msk rows columns c (seq @ [(row, col)] @ [(row, c)])))"
  by pat_completeness auto

termination step4_loop
proof (relation "measure (\<lambda>(msk, rows, columns, col, seq).
         card (({..<rows} \<times> {..<columns}) - set seq))", goal_cases)
  case 1
  show ?case by simp
next
  case (2 msk rows columns col seq row c)
  from 2(1) obtain i where "i < length [0..<rows]" "row = [0..<rows] ! i"
    unfolding find_Some_iff by blast
  then have r: "row < rows" by simp
  from 2(2) obtain j where "j < length [0..<columns]" "c = [0..<columns] ! j"
     and n: "(row, c) \<notin> set (seq @ [(row, col)])"
    unfolding find_Some_iff by blast
  then have c: "c < columns" by simp
  let ?G = "{..<rows} \<times> {..<columns}"
  have 1: "?G - set (seq @ [(row, col)] @ [(row, c)]) \<subseteq> ?G - set seq"
    by auto
  have 2: "(row, c) \<in> ?G - set seq" using r c n by simp
  have 3: "(row, c) \<notin> ?G - set (seq @ [(row, col)] @ [(row, c)])" by simp
  have "?G - set (seq @ [(row, col)] @ [(row, c)]) \<subset> ?G - set seq"
    using 1 2 3 by blast
  then have "card (?G - set (seq @ [(row, col)] @ [(row, c)])) < card (?G - set seq)"
    by (intro psubset_card_mono) auto
  then show ?case by simp
qed

text \<open>Unstar each starred zero of the sequence and star each primed zero of it.\<close>

definition flip_cell :: "nat \<times> nat \<Rightarrow> mark Mat \<Rightarrow> mark Mat" where
  "flip_cell p msk =
     (if cell msk (fst p) (snd p) = STAR then set_cell msk (fst p) (snd p) NORMAL
      else if cell msk (fst p) (snd p) = PRIME then set_cell msk (fst p) (snd p) STAR
      else msk)"

definition erase_primes :: "mark Mat \<Rightarrow> mark Mat" where
  "erase_primes msk = msk\<lparr>cell := (\<lambda>i j. if cell msk i j = PRIME then NORMAL else cell msk i j)\<rparr>"

definition step4 :: "munkres \<Rightarrow> nat \<times> munkres" where
  "step4 s =
     (let rows = n_rows (matrix_m s); columns = n_cols (matrix_m s);
          seq = step4_loop (mask_m s) rows columns (savecol_m s) [(saverow_m s, savecol_m s)]
      in (2, s\<lparr>mask_m := erase_primes (fold flip_cell seq (mask_m s)),
               row_mask_m := (\<lambda>i. False),
               col_mask_m := (\<lambda>j. False)\<rparr>))"

subsection \<open>Step 5\<close>

definition step5_h :: "val Mat \<Rightarrow> (nat \<Rightarrow> bool) \<Rightarrow> (nat \<Rightarrow> bool) \<Rightarrow> nat \<times> nat \<Rightarrow> val \<Rightarrow> val" where
  "step5_h m rm cm rc h =
     (if \<not> rm (fst rc) \<and> \<not> cm (snd rc) then
        (if (vlt (cell m (fst rc) (snd rc)) h \<and> \<not> veq (cell m (fst rc) (snd rc)) (Fin 0))
            \<or> veq h (Fin 0)
         then cell m (fst rc) (snd rc) else h)
      else h)"

definition add_row :: "val \<Rightarrow> nat \<Rightarrow> val Mat \<Rightarrow> val Mat" where
  "add_row h row m = m\<lparr>cell := (\<lambda>i j. if i = row then vadd (cell m i j) h else cell m i j)\<rparr>"

definition sub_col :: "val \<Rightarrow> nat \<Rightarrow> val Mat \<Rightarrow> val Mat" where
  "sub_col h col m = m\<lparr>cell := (\<lambda>i j. if j = col then vsub (cell m i j) h else cell m i j)\<rparr>"

text \<open>The value \<open>h\<close> computed by the first loop of step 5.\<close>

definition step5_min :: "munkres \<Rightarrow> val" where
  "step5_min s =
     fold (step5_h (matrix_m s) (row_mask_m s) (col_mask_m s))
       (List.product [0..<n_rows (matrix_m s)] [0..<n_cols (matrix_m s)]) (Fin 0)"

definition step5 :: "munkres \<Rightarrow> nat \<times> munkres" where
  "step5 s =
     (let rows = n_rows (matrix_m s); columns = n_cols (matrix_m s);
          h = step5_min s;
          m1 = fold (\<lambda>row m. if row_mask_m s row then add_row h row m else m)
                 [0..<rows] (matrix_m s);
          m2 = fold (\<lambda>col m. if \<not> col_mask_m s col then sub_col h col m else m)
                 [0..<columns] m1
      in (3, s\<lparr>matrix_m := m2\<rparr>))"

subsection \<open>The loop of \<open>solve\<close>\<close>

text \<open>
  A configuration is the local variable \<open>step\<close> together with the object.  The
  \<open>switch\<close> has no default case: a value outside 1..5 would leave \<open>step\<close> as it is.
\<close>

definition dispatch :: "nat \<times> munkres \<Rightarrow> nat \<times> munkres" where
  "dispatch c =
     (if fst c = 1 then step1 (snd c)
      else if fst c = 2 then step2 (snd c)
      else if fst c = 3 then step3 (snd c)
      else if fst c = 4 then step4 (snd c)
      else if fst c = 5 then step5 (snd c)
      else c)"

partial_function (option) run_steps :: "nat \<times> munkres \<Rightarrow> munkres option" where
  "run_steps c = (if fst c = 0 then Some (snd c) else run_steps (dispatch c))"

declare run_steps.simps [code]

subsection \<open>Before and after the loop\<close>

definition pad_square :: "val Mat \<Rightarrow> failure + val Mat" where
  "pad_square m =
     (let rows = n_rows m; columns = n_cols m; size = max rows columns in
      if \<not> is_square m then
        (case arma_max (elems m) of
           Inl e \<Rightarrow> Inl e
         | Inr v \<Rightarrow>
             Inr (if rows > columns
                  then fill_cols columns (size - 1) v (resize (Fin 0) size size m)
                  else fill_rows rows (size - 1) v (resize (Fin 0) size size m)))
      else Inr m)"

definition replace_inf :: "val Mat \<Rightarrow> failure + val Mat" where
  "replace_inf m =
     (if has_inf m then
        (case arma_max (find_finite m) of
           Inl e \<Rightarrow> Inl e
         | Inr v \<Rightarrow> Inr (fill_nonfinite v m))
      else Inr m)"

definition prepare :: "val Mat \<Rightarrow> munkres \<Rightarrow> failure + munkres" where
  "prepare m s =
     (let size = max (n_rows m) (n_cols m) in
      case pad_square m of
        Inl e \<Rightarrow> Inl e
      | Inr m1 \<Rightarrow>
          (case replace_inf m1 of
             Inl e \<Rightarrow> Inl e
           | Inr m2 \<Rightarrow>
               Inr (s\<lparr>matrix_m := sub_col_min (sub_row_min m2),
                      mask_m := \<lparr>n_rows = size, n_cols = size, cell = (\<lambda>i j. NORMAL)\<rparr>,
                      row_mask_m := (\<lambda>i. False),
                      col_mask_m := (\<lambda>j. False)\<rparr>)))"

text \<open>
  \<open>find(mask_ == STAR)\<close> gives the linear indices of the starred cells in storage
  order; \<open>ind2sub\<close> turns them into subscripts through \<open>arma::mod\<close>, whose first
  statement is \<open>assert(Y != 0)\<close>; \<open>sortrows\<close> is a stable sort on one column.
\<close>

definition find_eq :: "'a Mat \<Rightarrow> 'a \<Rightarrow> nat list" where
  "find_eq m v =
     concat (map (\<lambda>c. map (\<lambda>r. c * n_rows m + r) (filter (\<lambda>r. cell m r c = v) [0..<n_rows m]))
               [0..<n_cols m])"

definition arma_mod :: "nat list \<Rightarrow> nat \<Rightarrow> failure + nat list" where
  "arma_mod X Y = (if Y = 0 then Inl AssertionFailed else Inr (map (\<lambda>x. x mod Y) X))"

definition ind2sub :: "nat \<times> nat \<Rightarrow> nat list \<Rightarrow> failure + (nat \<times> nat) list" where
  "ind2sub siz ndx =
     (case arma_mod ndx (fst siz) of
        Inl e \<Rightarrow> Inl e
      | Inr rs \<Rightarrow> Inr (zip rs (map (\<lambda>x. x div fst siz) ndx)))"

definition sortrows :: "(nat \<times> nat) list \<Rightarrow> nat \<Rightarrow> (nat \<times> nat) list" where
  "sortrows X col = sort_key (\<lambda>p. if col = 0 then fst p else snd p) X"

definition extract_subs :: "nat \<Rightarrow> nat \<Rightarrow> munkres \<Rightarrow> failure + (nat \<times> nat) list \<times> munkres" where
  "extract_subs rows columns s =
     (let s' = s\<lparr>matrix_m := resize (Fin 0) rows columns (matrix_m s),
                 mask_m := resize NORMAL rows columns (mask_m s)\<rparr> in
      case ind2sub (n_rows (mask_m s'), n_cols (mask_m s')) (find_eq (mask_m s') STAR) of
        Inl e \<Rightarrow> Inl e
      | Inr sub \<Rightarrow> Inr (sortrows sub 0, s'))"

text \<open>
  \<open>solve\<close>: \<open>None\<close> when the loop never ends, \<open>Some (Inl e)\<close> when the call is aborted,
  \<open>Some (Inr (r, s))\<close> when it returns the subscripts \<open>r\<close> and leaves the object as \<open>s\<close>.
\<close>

definition solve :: "val Mat \<Rightarrow> munkres \<Rightarrow> (failure + (nat \<times> nat) list \<times> munkres) option" where
  "solve m s =
     (case prepare m s of
        Inl e \<Rightarrow> Some (Inl e)
      | Inr s0 \<Rightarrow>
          (case run_steps (1, s0) of
             None \<Rightarrow> None
           | Some s1 \<Rightarrow> Some (extract_subs (n_rows m) (n_cols m) s1)))"


section \<open>Properties of matrices and inputs\<close>

definition nonneg :: "val \<Rightarrow> bool" where
  "nonneg v = (case v of Fin a \<Rightarrow> 0 \<le> a | _ \<Rightarrow> False)"

definition all_finite :: "val Mat \<Rightarrow> bool" where
  "all_finite m = list_all is_finite (elems m)"

definition nonneg_finite :: "val Mat \<Rightarrow> bool" where
  "nonneg_finite m = list_all nonneg (elems m)"

text \<open>Finite non-negative entries with a zero in every row and in every column.\<close>

definition reduced :: "val Mat \<Rightarrow> bool" where
  "reduced m = (nonneg_finite m \<and>
     list_all (\<lambda>i. list_ex (\<lambda>j. cell m i j = Fin 0) [0..<n_cols m]) [0..<n_rows m] \<and>
     list_all (\<lambda>j. list_ex (\<lambda>i. cell m i j = Fin 0) [0..<n_rows m]) [0..<n_cols m])"

definition c7_matrix :: "val Mat" where
  "c7_matrix = of_rows NaN [[Fin 0, Fin 1], [Fin 2, Fin 2]]"

text \<open>A default-constructed solver object; the two registers hold some number.\<close>

definition fresh_munkres :: munkres where
  "fresh_munkres =
     \<lparr>matrix_m = \<lparr>n_rows = 0, n_cols = 0, cell = (\<lambda>i j. Fin 0)\<rparr>,
      mask_m = \<lparr>n_rows = 0, n_cols = 0, cell = (\<lambda>i j. NORMAL)\<rparr>,
      row_mask_m = (\<lambda>i. False), col_mask_m = (\<lambda>j. False),
      saverow_m = 0, savecol_m = 0\<rparr>"

text \<open>What the caller of \<open>solve\<close> observes: divergence, a failure, or the subscripts.\<close>

definition returned ::
  "(failure + (nat \<times> nat) list \<times> munkres) option \<Rightarrow> (failure + (nat \<times> nat) list) option" where
  "returned r = map_option (map_sum id fst) r"

definition is_nan :: "val \<Rightarrow> bool" where
  "is_nan v = (v = NaN)"

text \<open>The precondition of \<open>solve\<close> in the specification.\<close>

definition valid_input :: "val Mat \<Rightarrow> bool" where
  "valid_input m = (1 \<le> n_rows m \<and> 1 \<le> n_cols m \<and> \<not> list_ex is_nan (elems m) \<and>
                    list_ex is_finite (elems m))"

definition c3_matrix :: "val Mat" where
  "c3_matrix = of_rows NaN [[Fin 0, Fin 1], [Fin 1, NaN]]"

definition all_inf_matrix :: "val Mat" where
  "all_inf_matrix = of_rows NaN [[PInf, PInf], [PInf, PInf]]"

definition c10_matrix :: "val Mat" where
  "c10_matrix = of_rows NaN [[NInf, NaN], [Fin 0, Fin 1]]"

text \<open>Two objects agree on everything but the two registers.\<close>

definition same_engine :: "munkres \<Rightarrow> munkres \<Rightarrow> bool" where
  "same_engine s t = (matrix_m s = matrix_m t \<and> mask_m s = mask_m t \<and>
                      row_mask_m s = row_mask_m t \<and> col_mask_m s = col_mask_m t)"

definition same_config :: "nat \<times> munkres \<Rightarrow> nat \<times> munkres \<Rightarrow> bool" where
  "same_config c d = (fst c = fst d \<and> same_engine (snd c) (snd d) \<and>
                      (fst c = 4 \<longrightarrow> saverow_m (snd c) = saverow_m (snd d) \<and>
                                       savecol_m (snd c) = savecol_m (snd d)))"

definition star_inv :: "nat \<Rightarrow> mark Mat \<Rightarrow> bool" where
  "star_inv N msk =
     ((\<forall>i<N. \<forall>j<N. \<forall>j'<N. cell msk i j = STAR \<longrightarrow> cell msk i j' = STAR \<longrightarrow> j = j') \<and>
      (\<forall>i<N. \<forall>i'<N. \<forall>j<N. cell msk i j = STAR \<longrightarrow> cell msk i' j = STAR \<longrightarrow> i = i'))"

definition nstars :: "nat \<Rightarrow> mark Mat \<Rightarrow> nat" where
  "nstars N msk = card {(i, j). i < N \<and> j < N \<and> cell msk i j = STAR}"

definition dims :: "nat \<Rightarrow> munkres \<Rightarrow> bool" where
  "dims N s = (n_rows (matrix_m s) = N \<and> n_cols (matrix_m s) = N \<and>
               n_rows (mask_m s) = N \<and> n_cols (mask_m s) = N)"

definition inv2 :: "nat \<Rightarrow> munkres \<Rightarrow> bool" where
  "inv2 N s = (star_inv N (mask_m s) \<and>
               (\<forall>i<N. \<forall>j<N. cell (mask_m s) i j \<noteq> PRIME) \<and>
               (\<forall>i<N. \<not> row_mask_m s i) \<and> (\<forall>j<N. \<not> col_mask_m s j))"

definition inv0 :: "nat \<Rightarrow> munkres \<Rightarrow> bool" where
  "inv0 N s = (star_inv N (mask_m s) \<and> N \<le> nstars N (mask_m s))"

definition cover_inv :: "nat \<Rightarrow> munkres \<Rightarrow> (nat \<Rightarrow> nat) \<Rightarrow> bool" where
  "cover_inv N s rk =
     (star_inv N (mask_m s) \<and>
      (\<forall>i<N. row_mask_m s i \<longrightarrow>
         (\<exists>j<N. cell (mask_m s) i j = STAR) \<and> (\<exists>j<N. cell (mask_m s) i j = PRIME)) \<and>
      (\<forall>i<N. \<forall>j<N. cell (mask_m s) i j = STAR \<longrightarrow> (row_mask_m s i \<longleftrightarrow> \<not> col_mask_m s j)) \<and>
      (\<forall>j<N. col_mask_m s j \<longrightarrow> (\<exists>i<N. cell (mask_m s) i j = STAR)) \<and>
      (\<forall>i<N. \<forall>j<N. cell (mask_m s) i j = PRIME \<longrightarrow> \<not> col_mask_m s j) \<and>
      (\<forall>i<N. \<forall>j<N. \<forall>j'<N. cell (mask_m s) i j = PRIME \<longrightarrow> cell (mask_m s) i j' = PRIME \<longrightarrow> j = j') \<and>
      (\<forall>i<N. \<forall>i'<N. \<forall>j<N. cell (mask_m s) i j = PRIME \<longrightarrow> cell (mask_m s) i' j = STAR \<longrightarrow>
           rk i' < rk i) \<and>
      nstars N (mask_m s) < N)"

definition inv3 :: "nat \<Rightarrow> munkres \<Rightarrow> bool" where
  "inv3 N s = ((\<exists>rk. cover_inv N s rk) \<and>
               (\<forall>i<N. \<forall>j<N. cell (mask_m s) i j = PRIME \<longrightarrow> row_mask_m s i))"

definition inv4 :: "nat \<Rightarrow> munkres \<Rightarrow> bool" where
  "inv4 N s = ((\<exists>rk. cover_inv N s rk) \<and>
               saverow_m s < N \<and> savecol_m s < N \<and>
               cell (mask_m s) (saverow_m s) (savecol_m s) = PRIME \<and>
               \<not> row_mask_m s (saverow_m s) \<and>
               (\<forall>j<N. cell (mask_m s) (saverow_m s) j \<noteq> STAR) \<and>
               (\<forall>i<N. \<forall>j<N. cell (mask_m s) i j = PRIME \<longrightarrow> i \<noteq> saverow_m s \<longrightarrow> row_mask_m s i))"

definition struct_inv :: "nat \<Rightarrow> nat \<times> munkres \<Rightarrow> bool" where
  "struct_inv N c =
     (dims N (snd c) \<and>
      (if fst c = 0 then inv0 N (snd c)
       else if fst c = 1 \<or> fst c = 2 then inv2 N (snd c)
       else if fst c = 3 \<or> fst c = 5 then inv3 N (snd c)
       else if fst c = 4 then inv4 N (snd c)
       else False))"

text \<open>An uncovered zero of the working matrix.\<close>

definition uncovered_zero :: "nat \<Rightarrow> munkres \<Rightarrow> bool" where
  "uncovered_zero N s = (\<exists>i<N. \<exists>j<N. \<not> row_mask_m s i \<and> \<not> col_mask_m s j \<and>
                            veq (cell (matrix_m s) i j) (Fin 0))"

definition path_inv :: "nat \<Rightarrow> mark Mat \<Rightarrow> (nat \<Rightarrow> nat) \<Rightarrow> nat \<Rightarrow> (nat \<times> nat) list \<Rightarrow> bool" where
  "path_inv N msk rk col seq =
     (distinct seq \<and>
      (\<forall>p\<in>set seq. fst p < N \<and> snd p < N \<and>
           (cell msk (fst p) (snd p) = STAR \<or> cell msk (fst p) (snd p) = PRIME)) \<and>
      length (filter (\<lambda>p. cell msk (fst p) (snd p) = PRIME) seq) =
        Suc (length (filter (\<lambda>p. cell msk (fst p) (snd p) = STAR) seq)) \<and>
      (\<forall>p\<in>set seq. cell msk (fst p) (snd p) = PRIME \<longrightarrow>
           (\<forall>j<N. cell msk (fst p) j = STAR \<longrightarrow> (fst p, j) \<in> set seq)) \<and>
      (\<forall>p\<in>set seq. cell msk (fst p) (snd p) = PRIME \<longrightarrow> snd p \<noteq> col \<longrightarrow>
           (\<exists>i<N. cell msk i (snd p) = STAR \<and> (i, snd p) \<in> set seq)) \<and>
      (\<exists>r<N. (r, col) \<in> set seq \<and> cell msk r col = PRIME \<and>
           (\<forall>p\<in>set seq. (snd p = col \<longrightarrow> fst p = r) \<and> rk r \<le> rk (fst p))) \<and>
      (\<forall>p\<in>set seq. \<forall>q\<in>set seq. cell msk (fst p) (snd p) = PRIME \<longrightarrow>
           cell msk (fst q) (snd q) = PRIME \<longrightarrow> snd p = snd q \<longrightarrow> p = q))"

definition path_done :: "nat \<Rightarrow> mark Mat \<Rightarrow> (nat \<times> nat) list \<Rightarrow> bool" where
  "path_done N msk seq =
     (distinct seq \<and>
      (\<forall>p\<in>set seq. fst p < N \<and> snd p < N \<and>
           (cell msk (fst p) (snd p) = STAR \<or> cell msk (fst p) (snd p) = PRIME)) \<and>
      length (filter (\<lambda>p. cell msk (fst p) (snd p) = PRIME) seq) =
        Suc (length (filter (\<lambda>p. cell msk (fst p) (snd p) = STAR) seq)) \<and>
      (\<forall>p\<in>set seq. cell msk (fst p) (snd p) = PRIME \<longrightarrow>
           (\<forall>j<N. cell msk (fst p) j = STAR \<longrightarrow> (fst p, j) \<in> set seq)) \<and>
      (\<forall>p\<in>set seq. cell msk (fst p) (snd p) = PRIME \<longrightarrow>
           (\<forall>i<N. cell msk i (snd p) = STAR \<longrightarrow> (i, snd p) \<in> set seq)) \<and>
      (\<forall>p\<in>set seq. \<forall>q\<in>set seq. cell msk (fst p) (snd p) = PRIME \<longrightarrow>
           cell msk (fst q) (snd q) = PRIME \<longrightarrow> snd p = snd q \<longrightarrow> p = q))"

definition flip_mark :: "mark \<Rightarrow> mark" where
  "flip_mark x = (case x of STAR \<Rightarrow> NORMAL | PRIME \<Rightarrow> STAR | NORMAL \<Rightarrow> NORMAL)"

text \<open>At most one STAR in every row and in every column of the mask.\<close>

definition star_unique :: "mark Mat \<Rightarrow> bool" where
  "star_unique msk =
     (list_all (\<lambda>i. length (filter (\<lambda>j. cell msk i j = STAR) [0..<n_cols msk]) \<le> 1)
        [0..<n_rows msk] \<and>
      list_all (\<lambda>j. length (filter (\<lambda>i. cell msk i j = STAR) [0..<n_rows msk]) \<le> 1)
        [0..<n_cols msk])"

text \<open>The object as \<open>prepare\<close> leaves it when called on a fresh object.\<close>

definition prepared :: "val Mat \<Rightarrow> munkres" where
  "prepared m = (case prepare m fresh_munkres of Inr s0 \<Rightarrow> s0 | Inl e \<Rightarrow> fresh_munkres)"

definition c5_matrix :: "val Mat" where
  "c5_matrix = of_rows NaN [[Fin 1, Fin 2, Fin 3], [Fin 2, Fin 4, Fin 6], [Fin 3, Fin 6, Fin 9]]"

text \<open>
  The caller of \<open>solve\<close>, as in the driver: its cost matrix, the solver object and the
  variable that receives the result.  \<open>solve\<close> takes the matrix by constant reference.
\<close>

record caller =
  cost :: "val Mat"
  solver :: munkres
  assignments :: "(nat \<times> nat) list"

definition call_solve :: "caller \<Rightarrow> (failure + caller) option" where
  "call_solve w =
     (case solve (cost w) (solver w) of
        None \<Rightarrow> None
      | Some (Inl e) \<Rightarrow> Some (Inl e)
      | Some (Inr rs) \<Rightarrow> Some (Inr (w\<lparr>solver := snd rs, assignments := fst rs\<rparr>)))"

definition c8_caller :: caller where
  "c8_caller = \<lparr>cost = c7_matrix, solver = fresh_munkres, assignments = []\<rparr>"

(*DEFS-END*)

section \<open>Basic facts\<close>

lemma find_upt_Some: "find P [0..<n] = Some i \<longleftrightarrow> i < n \<and> P i \<and> (\<forall>j<i. \<not> P j)"
  unfolding find_Some_iff by auto

lemma find_upt_None: "find P [0..<n] = None \<longleftrightarrow> (\<forall>i<n. \<not> P i)"
  unfolding find_None_iff by auto

lemma is_finite_iff: "is_finite v \<longleftrightarrow> (\<exists>a. v = Fin a)"
  by (cases v) auto

lemma set_elems: "set (elems m) = {cell m i j | i j. i < n_rows m \<and> j < n_cols m}"
  unfolding elems_def by fastforce

lemma elems_Nil: "elems m = [] \<longleftrightarrow> n_rows m = 0 \<or> n_cols m = 0"
  unfolding elems_def by (auto simp: concat_eq_Nil_conv)

lemma scan_min:
  assumes "is_finite v" "\<forall>x\<in>set xs. is_finite (g x)"
  defines "r \<equiv> fold (\<lambda>x mn. if vlt (g x) mn then g x else mn) xs v"
  shows "is_finite r \<and> (r = v \<or> r \<in> g ` set xs) \<and> \<not> vlt v r \<and> (\<forall>x\<in>set xs. \<not> vlt (g x) r)"
  using assms(1,2) unfolding r_def
proof (induction xs arbitrary: v)
  case Nil
  then show ?case by (auto simp: is_finite_iff)
next
  case (Cons x xs)
  let ?v = "if vlt (g x) v then g x else v"
  let ?r = "fold (\<lambda>x mn. if vlt (g x) mn then g x else mn) xs ?v"
  have fv: "is_finite ?v" using Cons.prems by auto
  have IH: "is_finite ?r \<and> (?r = ?v \<or> ?r \<in> g ` set xs) \<and> \<not> vlt ?v ?r \<and> (\<forall>x\<in>set xs. \<not> vlt (g x) ?r)"
    using Cons.IH[OF fv] Cons.prems by simp
  obtain a where a: "v = Fin a" using Cons.prems by (auto simp: is_finite_iff)
  obtain b where b: "g x = Fin b" using Cons.prems by (auto simp: is_finite_iff)
  obtain c where c: "?r = Fin c" using IH by (auto simp: is_finite_iff)
  have 1: "\<not> vlt v ?r" using IH a b c by (auto split: if_splits)
  have 2: "\<not> vlt (g x) ?r" using IH a b c by (auto split: if_splits)
  have 3: "?r = v \<or> ?r \<in> g ` set (x # xs)" using IH by (auto split: if_splits)
  show ?case using IH 1 2 3 by simp
qed

lemma scan_max:
  assumes "is_finite v" "\<forall>x\<in>set xs. is_finite x"
  defines "r \<equiv> fold (\<lambda>x mx. if vlt mx x then x else mx) xs v"
  shows "is_finite r \<and> (r = v \<or> r \<in> set xs) \<and> \<not> vlt r v \<and> (\<forall>x\<in>set xs. \<not> vlt r x)"
  using assms(1,2) unfolding r_def
proof (induction xs arbitrary: v)
  case Nil
  then show ?case by (auto simp: is_finite_iff)
next
  case (Cons x xs)
  let ?v = "if vlt v x then x else v"
  let ?r = "fold (\<lambda>x mx. if vlt mx x then x else mx) xs ?v"
  have fv: "is_finite ?v" using Cons.prems by auto
  have IH: "is_finite ?r \<and> (?r = ?v \<or> ?r \<in> set xs) \<and> \<not> vlt ?r ?v \<and> (\<forall>x\<in>set xs. \<not> vlt ?r x)"
    using Cons.IH[OF fv] Cons.prems by simp
  obtain a where a: "v = Fin a" using Cons.prems by (auto simp: is_finite_iff)
  obtain b where b: "x = Fin b" using Cons.prems by (auto simp: is_finite_iff)
  obtain c where c: "?r = Fin c" using IH by (auto simp: is_finite_iff)
  have 1: "\<not> vlt ?r v" using IH a b c by (auto split: if_splits)
  have 2: "\<not> vlt ?r x" using IH a b c by (auto split: if_splits)
  have 3: "?r = v \<or> ?r \<in> set (x # xs)" using IH by (auto split: if_splits)
  show ?case using IH 1 2 3 by simp
qed

lemma direct_max_finite:
  assumes "xs \<noteq> []" "\<forall>x\<in>set xs. is_finite x"
  shows "is_finite (direct_max xs) \<and> direct_max xs \<in> set xs \<and> (\<forall>x\<in>set xs. \<not> vlt (direct_max xs) x)"
proof -
  obtain x xs' where xs: "xs = x # xs'" using assms(1) by (cases xs) auto
  obtain a where a: "x = Fin a" using assms(2) xs by (auto simp: is_finite_iff)
  let ?r = "fold (\<lambda>x mx. if vlt mx x then x else mx) xs' x"
  have d: "direct_max xs = ?r"
    unfolding direct_max_def xs a by simp
  have "is_finite x" "\<forall>y\<in>set xs'. is_finite y" using assms(2) xs by auto
  from scan_max[OF this]
  have "is_finite ?r \<and> (?r = x \<or> ?r \<in> set xs') \<and> \<not> vlt ?r x \<and> (\<forall>x\<in>set xs'. \<not> vlt ?r x)" .
  then show ?thesis unfolding d unfolding xs by auto
qed

lemma scan_max_cases:
  "fold (\<lambda>x mx. if vlt mx x then x else mx) xs v = v \<or>
   fold (\<lambda>x mx. if vlt mx x then x else mx) xs v \<in> set xs"
proof (induction xs arbitrary: v)
  case Nil
  show ?case by simp
next
  case (Cons x xs)
  show ?case using Cons.IH[of "if vlt v x then x else v"] by (auto split: if_splits)
qed

lemma direct_max_cases: "direct_max xs = NInf \<or> direct_max xs \<in> set xs"
  unfolding direct_max_def by (rule scan_max_cases)



lemma all_finite_iff: "all_finite m \<longleftrightarrow> (\<forall>i<n_rows m. \<forall>j<n_cols m. is_finite (cell m i j))"
  unfolding all_finite_def list_all_iff set_elems by auto

lemma nonneg_iff: "nonneg v \<longleftrightarrow> (\<exists>a\<ge>0. v = Fin a)"
  unfolding nonneg_def by (cases v) auto

lemma nonneg_finite_iff:
  "nonneg_finite m \<longleftrightarrow> (\<forall>i<n_rows m. \<forall>j<n_cols m. \<exists>a\<ge>0. cell m i j = Fin a)"
  unfolding nonneg_finite_def list_all_iff set_elems nonneg_iff by auto

lemma reduced_iff:
  "reduced m \<longleftrightarrow> nonneg_finite m \<and>
     (\<forall>i<n_rows m. \<exists>j<n_cols m. cell m i j = Fin 0) \<and>
     (\<forall>j<n_cols m. \<exists>i<n_rows m. cell m i j = Fin 0)"
  unfolding reduced_def list_all_iff list_ex_iff by (simp add: Ball_def Bex_def)

section \<open>Row and column reduction\<close>

lemma nonneg_finite_all_finite: "nonneg_finite m \<Longrightarrow> all_finite m"
  unfolding nonneg_finite_iff all_finite_iff by (auto simp: is_finite_iff) 

lemma row_min_props:
  assumes "all_finite m" "i < n_rows m" "0 < n_cols m"
  shows "is_finite (row_min m i) \<and> (\<exists>j<n_cols m. row_min m i = cell m i j) \<and>
         (\<forall>j<n_cols m. \<not> vlt (cell m i j) (row_min m i))"
proof -
  let ?r = "fold (\<lambda>c mn. if vlt (cell m i c) mn then cell m i c else mn) [1..<n_cols m] (cell m i 0)"
  have f0: "is_finite (cell m i 0)" using assms unfolding all_finite_iff by simp
  have fs: "\<forall>c\<in>set [1..<n_cols m]. is_finite (cell m i c)"
    using assms unfolding all_finite_iff by simp
  from scan_min[OF f0 fs]
  have p: "is_finite ?r \<and> (?r = cell m i 0 \<or> ?r \<in> (\<lambda>c. cell m i c) ` set [1..<n_cols m]) \<and>
        \<not> vlt (cell m i 0) ?r \<and> (\<forall>c\<in>set [1..<n_cols m]. \<not> vlt (cell m i c) ?r)" .
  have 1: "\<exists>j<n_cols m. ?r = cell m i j" using p assms(3) by auto
  have 2: "\<not> vlt (cell m i j) ?r" if "j < n_cols m" for j
    using p that by (cases "j = 0") auto
  show ?thesis unfolding row_min_def using p 1 2 by blast
qed

lemma col_min_props:
  assumes "all_finite m" "j < n_cols m" "0 < n_rows m"
  shows "is_finite (col_min m j) \<and> (\<exists>i<n_rows m. col_min m j = cell m i j) \<and>
         (\<forall>i<n_rows m. \<not> vlt (cell m i j) (col_min m j))"
proof -
  let ?f = "\<lambda>r mn. if vlt (cell m r j) mn then cell m r j else mn"
  let ?r = "fold ?f [1..<n_rows m] (cell m 0 j)"
  have f0: "is_finite (cell m 0 j)" using assms unfolding all_finite_iff by simp
  have fs: "\<forall>r\<in>set [1..<n_rows m]. is_finite (cell m r j)"
    using assms unfolding all_finite_iff by simp
  have u: "[0..<n_rows m] = 0 # [1..<n_rows m]" using assms(3) by (simp add: upt_conv_Cons)
  have "vlt (cell m 0 j) PInf" using f0 by (auto simp: is_finite_iff)
  then have e: "col_min m j = ?r" unfolding col_min_def u by simp
  from scan_min[OF f0 fs]
  have p: "is_finite ?r \<and> (?r = cell m 0 j \<or> ?r \<in> (\<lambda>r. cell m r j) ` set [1..<n_rows m]) \<and>
        \<not> vlt (cell m 0 j) ?r \<and> (\<forall>r\<in>set [1..<n_rows m]. \<not> vlt (cell m r j) ?r)" .
  have 1: "\<exists>i<n_rows m. ?r = cell m i j" using p assms(3) by auto
  have 2: "\<not> vlt (cell m i j) ?r" if "i < n_rows m" for i
    using p that by (cases "i = 0") auto
  show ?thesis unfolding e using p 1 2 by blast
qed

lemma sub_row_min_dims [simp]:
  "n_rows (sub_row_min m) = n_rows m" "n_cols (sub_row_min m) = n_cols m"
  "cell (sub_row_min m) i j = vsub (cell m i j) (row_min m i)"
  unfolding sub_row_min_def by simp_all

lemma sub_col_min_dims [simp]:
  "n_rows (sub_col_min m) = n_rows m" "n_cols (sub_col_min m) = n_cols m"
  "cell (sub_col_min m) i j = vsub (cell m i j) (col_min m j)"
  unfolding sub_col_min_def by simp_all

lemma sub_row_min_nonneg:
  assumes "all_finite m"
  shows "nonneg_finite (sub_row_min m)"
  unfolding nonneg_finite_iff
proof (intro allI impI)
  fix i j assume "i < n_rows (sub_row_min m)" "j < n_cols (sub_row_min m)"
  then have ij: "i < n_rows m" "j < n_cols m" by simp_all
  then have "0 < n_cols m" by simp
  from row_min_props[OF assms ij(1) this] ij(2)
  have p: "is_finite (row_min m i)" "\<not> vlt (cell m i j) (row_min m i)" by auto
  have "is_finite (cell m i j)" using assms ij unfolding all_finite_iff by simp
  then show "\<exists>a\<ge>0. cell (sub_row_min m) i j = Fin a" using p by (auto simp: is_finite_iff)
qed

lemma sub_row_min_zero:
  assumes "all_finite m" "i < n_rows m" "0 < n_cols m"
  shows "\<exists>j<n_cols m. cell (sub_row_min m) i j = Fin 0"
proof -
  from row_min_props[OF assms]
  obtain j where "j < n_cols m" "row_min m i = cell m i j" "is_finite (row_min m i)" by auto
  then show ?thesis by (auto simp: is_finite_iff intro!: exI[of _ j])
qed

lemma sub_col_min_nonneg:
  assumes "all_finite m"
  shows "nonneg_finite (sub_col_min m)"
  unfolding nonneg_finite_iff
proof (intro allI impI)
  fix i j assume "i < n_rows (sub_col_min m)" "j < n_cols (sub_col_min m)"
  then have ij: "i < n_rows m" "j < n_cols m" by simp_all
  then have "0 < n_rows m" by simp
  from col_min_props[OF assms ij(2) this] ij(1)
  have p: "is_finite (col_min m j)" "\<not> vlt (cell m i j) (col_min m j)" by auto
  have "is_finite (cell m i j)" using assms ij unfolding all_finite_iff by simp
  then show "\<exists>a\<ge>0. cell (sub_col_min m) i j = Fin a" using p by (auto simp: is_finite_iff)
qed

lemma sub_col_min_zero:
  assumes "all_finite m" "j < n_cols m" "0 < n_rows m"
  shows "\<exists>i<n_rows m. cell (sub_col_min m) i j = Fin 0"
proof -
  from col_min_props[OF assms]
  obtain i where "i < n_rows m" "col_min m j = cell m i j" "is_finite (col_min m j)" by auto
  then show ?thesis by (auto simp: is_finite_iff intro!: exI[of _ i])
qed

text \<open>A row (column) that already holds a zero among non-negative entries has minimum zero.\<close>

lemma row_min_zero:
  assumes "nonneg_finite m" "i < n_rows m" "j < n_cols m" "cell m i j = Fin 0"
  shows "row_min m i = Fin 0"
proof -
  have af: "all_finite m" using assms(1) by (rule nonneg_finite_all_finite)
  have c: "0 < n_cols m" using assms(3) by simp
  from row_min_props[OF af assms(2) c]
  obtain j' where j': "j' < n_cols m" "row_min m i = cell m i j'"
    and le: "\<not> vlt (cell m i j) (row_min m i)" using assms(3) by auto
  obtain a where a: "a \<ge> 0" "cell m i j' = Fin a"
    using assms(1,2) j' unfolding nonneg_finite_iff by blast
  show ?thesis using le a j' assms(4) by simp
qed

lemma col_min_zero:
  assumes "nonneg_finite m" "i < n_rows m" "j < n_cols m" "cell m i j = Fin 0"
  shows "col_min m j = Fin 0"
proof -
  have af: "all_finite m" using assms(1) by (rule nonneg_finite_all_finite)
  have c: "0 < n_rows m" using assms(2) by simp
  from col_min_props[OF af assms(3) c]
  obtain i' where i': "i' < n_rows m" "col_min m j = cell m i' j"
    and le: "\<not> vlt (cell m i j) (col_min m j)" using assms(2) by auto
  obtain a where a: "a \<ge> 0" "cell m i' j = Fin a"
    using assms(1,3) i' unfolding nonneg_finite_iff by blast
  show ?thesis using le a i' assms(4) by simp
qed

lemma reduced_row_col:
  assumes "all_finite m" "is_square m"
  shows "reduced (sub_col_min (sub_row_min m))"
proof -
  let ?a = "sub_row_min m"
  have na: "nonneg_finite ?a" using assms(1) by (rule sub_row_min_nonneg)
  then have fa: "all_finite ?a" by (rule nonneg_finite_all_finite)
  have sq: "n_rows m = n_cols m" using assms(2) by (simp add: is_square_def)
  have 1: "nonneg_finite (sub_col_min ?a)" using fa by (rule sub_col_min_nonneg)
  have 2: "\<exists>j<n_cols m. cell (sub_col_min ?a) i j = Fin 0" if i: "i < n_rows m" for i
  proof -
    have c: "0 < n_cols m" using i sq by simp
    from sub_row_min_zero[OF assms(1) i c] obtain j where j: "j < n_cols m" "cell ?a i j = Fin 0"
      by auto
    have "col_min ?a j = Fin 0" using col_min_zero[OF na _ _ j(2)] i j(1) by simp
    then show ?thesis using j by (auto intro!: exI[of _ j])
  qed
  have 3: "\<exists>i<n_rows m. cell (sub_col_min ?a) i j = Fin 0" if j: "j < n_cols m" for j
  proof -
    have r: "0 < n_rows ?a" using j sq by simp
    from sub_col_min_zero[OF fa _ r, of j] j show ?thesis by simp
  qed
  show ?thesis unfolding reduced_iff using 1 2 3 by simp
qed

lemma reduced_col_row:
  assumes "all_finite m" "is_square m"
  shows "reduced (sub_row_min (sub_col_min m))"
proof -
  let ?a = "sub_col_min m"
  have na: "nonneg_finite ?a" using assms(1) by (rule sub_col_min_nonneg)
  then have fa: "all_finite ?a" by (rule nonneg_finite_all_finite)
  have sq: "n_rows m = n_cols m" using assms(2) by (simp add: is_square_def)
  have 1: "nonneg_finite (sub_row_min ?a)" using fa by (rule sub_row_min_nonneg)
  have 2: "\<exists>i<n_rows m. cell (sub_row_min ?a) i j = Fin 0" if j: "j < n_cols m" for j
  proof -
    have c: "0 < n_rows m" using j sq by simp
    from sub_col_min_zero[OF assms(1) j c] obtain i where i: "i < n_rows m" "cell ?a i j = Fin 0"
      by auto
    have "row_min ?a i = Fin 0" using row_min_zero[OF na _ _ i(2)] i(1) j by simp
    then show ?thesis using i by (auto intro!: exI[of _ i])
  qed
  have 3: "\<exists>j<n_cols m. cell (sub_row_min ?a) i j = Fin 0" if i: "i < n_rows m" for i
  proof -
    have r: "0 < n_cols ?a" using i sq by simp
    from sub_row_min_zero[OF fa _ r, of i] i show ?thesis by simp
  qed
  show ?thesis unfolding reduced_iff using 1 2 3 by simp
qed


text \<open>
  Claim C7, as stated: the two reductions commute.  This fails on the matrix with rows
  (0, 1) and (2, 2): rows first leaves 0 in cell (1, 0), columns first leaves 1 there.
\<close>

theorem reductions_do_not_commute:
  "is_square c7_matrix \<and> cell c7_matrix 0 0 = Fin 0 \<and> cell c7_matrix 0 1 = Fin 1 \<and>
   cell c7_matrix 1 0 = Fin 2 \<and> cell c7_matrix 1 1 = Fin 2 \<and>
   cell (sub_col_min (sub_row_min c7_matrix)) 1 0 = Fin 0 \<and>
   cell (sub_row_min (sub_col_min c7_matrix)) 1 0 = Fin 1"
  by code_simp

text \<open>
  Claim C7, amended: on every square matrix of finite non-negative entries, each order of
  the two reductions gives a matrix of finite non-negative entries with a zero in every
  row and in every column (the two results need not be the same matrix).
\<close>

theorem reductions_both_reduced:
  "is_square m \<Longrightarrow> nonneg_finite m \<Longrightarrow>
   reduced (sub_col_min (sub_row_min m)) \<and> reduced (sub_row_min (sub_col_min m))"
  using reduced_row_col reduced_col_row nonneg_finite_all_finite by blast

theorem reductions_both_reduced_witness:
  "is_square c7_matrix \<and> nonneg_finite c7_matrix \<and>
   reduced (sub_col_min (sub_row_min c7_matrix)) \<and>
   reduced (sub_row_min (sub_col_min c7_matrix))"
proof -
  have 1: "is_square c7_matrix" by code_simp
  have 2: "nonneg_finite c7_matrix" by code_simp
  show ?thesis using 1 2 reductions_both_reduced [OF 1 2] by simp
qed

lemma pad_square_square: "is_square m \<Longrightarrow> pad_square m = Inr m"
  unfolding pad_square_def by (simp add: Let_def)

lemma pad_square_props:
  assumes "1 \<le> n_rows m" "1 \<le> n_cols m"
  shows "\<exists>m1. pad_square m = Inr m1 \<and> n_rows m1 = max (n_rows m) (n_cols m) \<and>
            n_cols m1 = max (n_rows m) (n_cols m) \<and>
            (\<forall>i<n_rows m1. \<forall>j<n_cols m1. cell m1 i j =
               (if i < n_rows m \<and> j < n_cols m then cell m i j else direct_max (elems m)))"
proof (cases "is_square m")
  case True
  then show ?thesis unfolding pad_square_def by (auto simp: Let_def is_square_def)
next
  case False
  have ne: "elems m \<noteq> []" using assms by (simp add: elems_Nil)
  show ?thesis
  proof (cases "n_rows m > n_cols m")
    case True
    then show ?thesis using False ne unfolding pad_square_def
      by (auto simp: Let_def arma_max_def fill_cols_def resize_def max_def)
  next
    case F2: False
    then have "n_rows m < n_cols m" using False by (auto simp: is_square_def)
    then show ?thesis using False ne unfolding pad_square_def
      by (auto simp: Let_def arma_max_def fill_rows_def resize_def max_def)
  qed
qed

lemma has_inf_iff: "has_inf m \<longleftrightarrow> (\<exists>i<n_rows m. \<exists>j<n_cols m. is_inf (cell m i j))"
  unfolding has_inf_def list_ex_iff set_elems by auto

lemma set_find_finite:
  "set (find_finite m) = {cell m i j | i j. i < n_rows m \<and> j < n_cols m \<and> is_finite (cell m i j)}"
  unfolding find_finite_def using set_elems[of m] by auto

lemma find_finite_Nil:
  "find_finite m = [] \<longleftrightarrow> (\<forall>i<n_rows m. \<forall>j<n_cols m. \<not> is_finite (cell m i j))"
proof -
  have "find_finite m = [] \<longleftrightarrow> set (find_finite m) = {}" by simp
  also have "\<dots> \<longleftrightarrow> (\<forall>i<n_rows m. \<forall>j<n_cols m. \<not> is_finite (cell m i j))"
    unfolding set_find_finite by auto
  finally show ?thesis .
qed

lemma fill_nonfinite_simps [simp]:
  "n_rows (fill_nonfinite v m) = n_rows m" "n_cols (fill_nonfinite v m) = n_cols m"
  "cell (fill_nonfinite v m) i j = (if is_finite (cell m i j) then cell m i j else v)"
  unfolding fill_nonfinite_def by simp_all

text \<open>The replacement stage on a matrix with a finite entry.\<close>

lemma replace_inf_finite:
  assumes "has_inf m" "find_finite m \<noteq> []"
  shows "replace_inf m = Inr (fill_nonfinite (direct_max (find_finite m)) m) \<and>
         is_finite (direct_max (find_finite m)) \<and>
         direct_max (find_finite m) \<in> set (find_finite m) \<and>
         (\<forall>x\<in>set (find_finite m). \<not> vlt (direct_max (find_finite m)) x)"
proof -
  have "\<forall>x\<in>set (find_finite m). is_finite x" unfolding find_finite_def by simp
  from direct_max_finite[OF assms(2) this] show ?thesis
    using assms unfolding replace_inf_def arma_max_def by simp
qed

lemma replace_inf_all_finite:
  assumes "\<exists>i<n_rows m. \<exists>j<n_cols m. is_finite (cell m i j)"
      and "\<forall>i<n_rows m. \<forall>j<n_cols m. cell m i j \<noteq> NaN"
  shows "\<exists>m2. replace_inf m = Inr m2 \<and> n_rows m2 = n_rows m \<and> n_cols m2 = n_cols m \<and> all_finite m2"
proof (cases "has_inf m")
  case True
  have ne: "find_finite m \<noteq> []" using assms(1) by (auto simp: find_finite_Nil)
  from replace_inf_finite[OF True ne] show ?thesis
    by (auto simp: all_finite_iff)
next
  case False
  have "is_finite (cell m i j)" if "i < n_rows m" "j < n_cols m" for i j
  proof -
    have "\<not> is_inf (cell m i j)" "cell m i j \<noteq> NaN"
      using False assms(2) that unfolding has_inf_iff by blast+
    then show ?thesis by (cases "cell m i j") auto
  qed
  then show ?thesis using False unfolding replace_inf_def by (simp add: all_finite_iff)
qed

lemma valid_input_iff:
  "valid_input m \<longleftrightarrow> 1 \<le> n_rows m \<and> 1 \<le> n_cols m \<and>
     (\<forall>i<n_rows m. \<forall>j<n_cols m. cell m i j \<noteq> NaN) \<and>
     (\<exists>i<n_rows m. \<exists>j<n_cols m. is_finite (cell m i j))"
  unfolding valid_input_def list_ex_iff set_elems is_nan_def
  by (intro conj_cong refl) (auto, metis)

lemma direct_max_not_NaN:
  assumes "\<forall>x\<in>set xs. x \<noteq> NaN" shows "direct_max xs \<noteq> NaN"
  using direct_max_cases[of xs] assms by auto

text \<open>What \<open>prepare\<close> leaves in the object on a valid input.\<close>

lemma prepare_valid:
  assumes "valid_input m"
  shows "\<exists>wm. prepare m s =
           Inr (s\<lparr>matrix_m := wm,
                  mask_m := \<lparr>n_rows = max (n_rows m) (n_cols m), n_cols = max (n_rows m) (n_cols m),
                             cell = (\<lambda>i j. NORMAL)\<rparr>,
                  row_mask_m := (\<lambda>i. False), col_mask_m := (\<lambda>j. False)\<rparr>) \<and>
           n_rows wm = max (n_rows m) (n_cols m) \<and> n_cols wm = max (n_rows m) (n_cols m) \<and>
           reduced wm"
proof -
  let ?N = "max (n_rows m) (n_cols m)"
  from assms have v: "1 \<le> n_rows m" "1 \<le> n_cols m"
    "\<forall>i<n_rows m. \<forall>j<n_cols m. cell m i j \<noteq> NaN"
    "\<exists>i<n_rows m. \<exists>j<n_cols m. is_finite (cell m i j)"
    unfolding valid_input_iff by auto
  from pad_square_props[OF v(1,2)] obtain m1 where m1: "pad_square m = Inr m1"
    "n_rows m1 = ?N" "n_cols m1 = ?N"
    "\<forall>i<n_rows m1. \<forall>j<n_cols m1. cell m1 i j =
               (if i < n_rows m \<and> j < n_cols m then cell m i j else direct_max (elems m))"
    by blast
  have "\<forall>x\<in>set (elems m). x \<noteq> NaN" using v(3) unfolding set_elems by auto
  then have dm: "direct_max (elems m) \<noteq> NaN" by (rule direct_max_not_NaN)
  have nn: "\<forall>i<n_rows m1. \<forall>j<n_cols m1. cell m1 i j \<noteq> NaN"
    using m1(4) v(3) dm by auto
  obtain i j where ij: "i < n_rows m" "j < n_cols m" "is_finite (cell m i j)" using v(4) by blast
  then have "i < n_rows m1" "j < n_cols m1" "is_finite (cell m1 i j)"
    using m1 by auto
  then have ex: "\<exists>i<n_rows m1. \<exists>j<n_cols m1. is_finite (cell m1 i j)" by blast
  from replace_inf_all_finite[OF ex nn] obtain m2 where m2: "replace_inf m1 = Inr m2"
    "n_rows m2 = ?N" "n_cols m2 = ?N" "all_finite m2" using m1 by auto
  have sq: "is_square m2" using m2 by (simp add: is_square_def)
  have red: "reduced (sub_col_min (sub_row_min m2))" using m2(4) sq by (rule reduced_row_col)
  show ?thesis
    unfolding prepare_def using m1 m2 red by (auto simp: Let_def intro!: exI[of _ "sub_col_min (sub_row_min m2)"])
qed

text \<open>
  Claim C3, as stated: a matrix containing a NaN entry makes \<open>solve\<close> fail with an
  InvalidInput error.  The code has no such error and no check of its input: on the
  matrix with rows (0, 1) and (1, NaN) it returns the assignment (0, 1), (1, 0).
\<close>

theorem solve_accepts_nan:
  "list_ex is_nan (elems c3_matrix) \<and>
   returned (solve c3_matrix fresh_munkres) = Some (Inr [(0, 1), (1, 0)])"
  by code_simp

lemma run_steps_step: "fst c \<noteq> 0 \<Longrightarrow> run_steps c = run_steps (dispatch c)"
  by (subst run_steps.simps) simp

lemma run_steps_done: "run_steps (0, s) = Some s"
  by (subst run_steps.simps) simp

lemma solve_empty_square:
  assumes "n_rows m = 0" "n_cols m = 0"
  shows "solve m s = Some (Inl AssertionFailed)"
proof -
  have sq: "is_square m" using assms by (simp add: is_square_def)
  have e: "elems m = []" using assms by (simp add: elems_Nil)
  have ni: "\<not> has_inf m" unfolding has_inf_def e by simp
  let ?s0 = "s\<lparr>matrix_m := sub_col_min (sub_row_min m),
                mask_m := \<lparr>n_rows = 0, n_cols = 0, cell = (\<lambda>i j. NORMAL)\<rparr>,
                row_mask_m := (\<lambda>i. False), col_mask_m := (\<lambda>j. False)\<rparr>"
  have p: "prepare m s = Inr ?s0"
    unfolding prepare_def pad_square_square[OF sq] replace_inf_def using ni assms by simp
  have d1: "dispatch (1, ?s0) = (2, ?s0)"
    unfolding dispatch_def step1_def using assms by (simp add: Let_def)
  have d2: "dispatch (2, ?s0) = (0, ?s0)"
    unfolding dispatch_def step2_def using assms by (simp add: Let_def)
  have "run_steps (1, ?s0) = run_steps (dispatch (1, ?s0))"
    by (rule run_steps_step) simp
  also have "\<dots> = run_steps (dispatch (2, ?s0))"
    unfolding d1 by (rule run_steps_step) simp
  also have "\<dots> = Some ?s0"
    unfolding d2 by (rule run_steps_done)
  finally have r: "run_steps (1, ?s0) = Some ?s0" .
  have x: "extract_subs 0 0 ?s0 = Inl AssertionFailed"
    unfolding extract_subs_def ind2sub_def arma_mod_def resize_def by (simp add: Let_def)
  show ?thesis unfolding solve_def p using r x assms by simp
qed

lemma solve_empty_nonsquare:
  assumes "n_rows m = 0 \<or> n_cols m = 0" "\<not> is_square m"
  shows "solve m s = Some (Inl LogicError)"
proof -
  have e: "elems m = []" using assms(1) by (simp add: elems_Nil)
  have "pad_square m = Inl LogicError"
    unfolding pad_square_def arma_max_def e using assms(2) by (simp add: Let_def)
  then show ?thesis unfolding solve_def prepare_def by (simp add: Let_def)
qed

lemma solve_all_inf:
  assumes "1 \<le> n_rows m" "1 \<le> n_cols m" "list_all (\<lambda>x. x = PInf) (elems m)"
  shows "solve m s = Some (Inl LogicError)"
proof -
  have a: "cell m i j = PInf" if "i < n_rows m" "j < n_cols m" for i j
    using assms(3) that unfolding list_all_iff set_elems by auto
  from pad_square_props[OF assms(1,2)] obtain m1 where m1: "pad_square m = Inr m1"
    "n_rows m1 = max (n_rows m) (n_cols m)" "n_cols m1 = max (n_rows m) (n_cols m)"
    "\<forall>i<n_rows m1. \<forall>j<n_cols m1. cell m1 i j =
               (if i < n_rows m \<and> j < n_cols m then cell m i j else direct_max (elems m))"
    by blast
  have "direct_max (elems m) = NInf \<or> direct_max (elems m) = PInf"
    using direct_max_cases[of "elems m"] assms(3) unfolding list_all_iff by auto
  then have nf: "\<not> is_finite (direct_max (elems m))" by auto
  have "\<not> is_finite (cell m1 i j)" if "i < n_rows m1" "j < n_cols m1" for i j
    using m1(4) that a nf by auto
  then have ff: "find_finite m1 = []" unfolding find_finite_Nil by blast
  have "0 < n_rows m1" "0 < n_cols m1" "cell m1 0 0 = PInf"
    using m1 assms(1,2) a[of 0 0] by auto
  then have hi: "has_inf m1" unfolding has_inf_iff by (intro exI[of _ 0] conjI) auto
  have "replace_inf m1 = Inl LogicError"
    unfolding replace_inf_def arma_max_def using hi ff by simp
  then show ?thesis unfolding solve_def prepare_def using m1(1) by (simp add: Let_def)
qed

text \<open>
  Claim C3, amended: \<open>solve\<close> validates nothing and has no InvalidInput error.  On a
  matrix with zero rows or zero columns, or with every entry +infinity, the call still
  does not return an assignment: it is aborted by the library's \<open>max\<close> on a collection
  without elements or by the assertion \<open>Y != 0\<close> of \<open>arma::mod\<close>.  (A matrix with a NaN
  entry is not rejected.)
\<close>

theorem solve_fails_without_validation:
  "n_rows m = 0 \<or> n_cols m = 0 \<or> list_all (\<lambda>x. x = PInf) (elems m) \<Longrightarrow>
   returned (solve m s) = Some (Inl LogicError) \<or>
   returned (solve m s) = Some (Inl AssertionFailed)"
proof -
  assume h: "n_rows m = 0 \<or> n_cols m = 0 \<or> list_all (\<lambda>x. x = PInf) (elems m)"
  show ?thesis
  proof (cases "n_rows m = 0 \<or> n_cols m = 0")
    case True
    show ?thesis
    proof (cases "is_square m")
      case sq: True
      then have "n_rows m = 0" "n_cols m = 0" using True by (auto simp: is_square_def)
      then show ?thesis using solve_empty_square[of m s] by (simp add: returned_def)
    next
      case False
      then show ?thesis using solve_empty_nonsquare[OF True, of s] by (simp add: returned_def)
    qed
  next
    case False
    then have "1 \<le> n_rows m" "1 \<le> n_cols m" "list_all (\<lambda>x. x = PInf) (elems m)"
      using h by auto
    then show ?thesis using solve_all_inf[of m s] by (simp add: returned_def)
  qed
qed

theorem solve_fails_without_validation_witness:
  "list_all (\<lambda>x. x = PInf) (elems all_inf_matrix) \<and>
   returned (solve all_inf_matrix fresh_munkres) = Some (Inl LogicError)"
proof -
  have 1: "list_all (\<lambda>x. x = PInf) (elems all_inf_matrix)" by code_simp
  have 2: "returned (solve all_inf_matrix fresh_munkres) \<noteq> Some (Inl AssertionFailed)"
    by code_simp
  from solve_fails_without_validation[of all_inf_matrix fresh_munkres] 1 2
  show ?thesis by blast
qed

lemma set_cell_simps [simp]:
  "n_rows (set_cell m r c v) = n_rows m" "n_cols (set_cell m r c v) = n_cols m"
  "cell (set_cell m r c v) i j = (if i = r \<and> j = c then v else cell m i j)"
  unfolding set_cell_def by simp_all

lemma add_row_simps [simp]:
  "n_rows (add_row h r m) = n_rows m" "n_cols (add_row h r m) = n_cols m"
  "cell (add_row h r m) i j = (if i = r then vadd (cell m i j) h else cell m i j)"
  unfolding add_row_def by simp_all

lemma sub_col_simps [simp]:
  "n_rows (sub_col h c m) = n_rows m" "n_cols (sub_col h c m) = n_cols m"
  "cell (sub_col h c m) i j = (if j = c then vsub (cell m i j) h else cell m i j)"
  unfolding sub_col_def by simp_all

lemma fold_add_row:
  "n_rows (fold (\<lambda>row m. if rm row then add_row h row m else m) rs m) = n_rows m \<and>
   n_cols (fold (\<lambda>row m. if rm row then add_row h row m else m) rs m) = n_cols m \<and>
   (distinct rs \<longrightarrow> cell (fold (\<lambda>row m. if rm row then add_row h row m else m) rs m) i j =
     (if i \<in> set rs \<and> rm i then vadd (cell m i j) h else cell m i j))"
  by (induction rs arbitrary: m) auto

lemma fold_sub_col:
  "n_rows (fold (\<lambda>col m. if \<not> cm col then sub_col h col m else m) cs m) = n_rows m \<and>
   n_cols (fold (\<lambda>col m. if \<not> cm col then sub_col h col m else m) cs m) = n_cols m \<and>
   (distinct cs \<longrightarrow> cell (fold (\<lambda>col m. if \<not> cm col then sub_col h col m else m) cs m) i j =
     (if j \<in> set cs \<and> \<not> cm j then vsub (cell m i j) h else cell m i j))"
  by (induction cs arbitrary: m) auto

text \<open>The effect of each step on the working matrix.\<close>

lemma step1_matrix [simp]: "matrix_m (snd (step1 s)) = matrix_m s"
  unfolding step1_def by (simp add: Let_def)

lemma step2_matrix [simp]: "matrix_m (snd (step2 s)) = matrix_m s"
  unfolding step2_def by (simp add: Let_def)

lemma step3_matrix [simp]: "matrix_m (snd (step3 s)) = matrix_m s"
  unfolding step3_def by (simp add: Let_def split: option.split)

lemma step4_matrix [simp]: "matrix_m (snd (step4 s)) = matrix_m s"
  unfolding step4_def by (simp add: Let_def)

lemma step5_matrix:
  "n_rows (matrix_m (snd (step5 s))) = n_rows (matrix_m s)"
  "n_cols (matrix_m (snd (step5 s))) = n_cols (matrix_m s)"
  "cell (matrix_m (snd (step5 s))) i j =
     (let x = cell (matrix_m s) i j;
          x1 = (if i < n_rows (matrix_m s) \<and> row_mask_m s i then vadd x (step5_min s) else x)
      in if j < n_cols (matrix_m s) \<and> \<not> col_mask_m s j then vsub x1 (step5_min s) else x1)"
  unfolding step5_def by (simp_all add: Let_def fold_add_row fold_sub_col)

lemma dispatch_nan:
  assumes "cell (matrix_m (snd c)) i j = NaN"
  shows "cell (matrix_m (snd (dispatch c))) i j = NaN"
  using assms unfolding dispatch_def by (auto simp: step5_matrix Let_def)

lemma funpow_dispatch_nan:
  assumes "cell (matrix_m (snd c)) i j = NaN"
  shows "cell (matrix_m (snd ((dispatch ^^ k) c))) i j = NaN"
  using assms by (induction k) (auto intro: dispatch_nan)

text \<open>
  Claim C10, as stated: the replacement happens only when the working matrix contains
  +infinity, and a matrix with NaN and no +infinity keeps its NaN entries.  The guard is
  \<open>has_inf\<close>, which is also true of -infinity: on the matrix with rows (-infinity, NaN)
  and (0, 1), which holds no +infinity, both non-finite entries are replaced by 1.
\<close>

theorem replace_inf_on_negative_infinity:
  "\<not> list_ex (\<lambda>x. x = PInf) (elems c10_matrix) \<and> cell c10_matrix 0 1 = NaN \<and>
   (case replace_inf c10_matrix of Inl e \<Rightarrow> False
    | Inr wm \<Rightarrow> cell wm 0 1 = Fin 1 \<and> cell wm 0 0 = Fin 1)"
  by code_simp

text \<open>
  Claim C10, amended: the replacement is performed only when the working matrix contains
  an infinite entry (+infinity or -infinity); when it is performed on a matrix with a
  finite entry, every non-finite entry (NaN included) is replaced by the maximum finite
  entry; a working matrix with a NaN entry and no infinite entry goes through
  \<open>prepare\<close> and every step of the loop with that entry still NaN.
\<close>

theorem replace_inf_guard:
  "(\<not> has_inf wm \<longrightarrow> replace_inf wm = Inr wm) \<and>
   (has_inf wm \<and> find_finite wm \<noteq> [] \<longrightarrow>
      replace_inf wm = Inr (fill_nonfinite (direct_max (find_finite wm)) wm) \<and>
      direct_max (find_finite wm) \<in> set (find_finite wm) \<and>
      (\<forall>x\<in>set (find_finite wm). \<not> vlt (direct_max (find_finite wm)) x) \<and>
      (\<forall>i j. is_finite (cell (fill_nonfinite (direct_max (find_finite wm)) wm) i j))) \<and>
   (pad_square m = Inr wm \<and> \<not> has_inf wm \<and> cell wm i j = NaN \<longrightarrow>
      (\<exists>s0. prepare m s = Inr s0 \<and>
         (\<forall>k. cell (matrix_m (snd ((dispatch ^^ k) (1, s0)))) i j = NaN)))"
proof (intro conjI impI)
  assume "\<not> has_inf wm"
  then show "replace_inf wm = Inr wm" unfolding replace_inf_def by simp
next
  assume h: "has_inf wm \<and> find_finite wm \<noteq> []"
  then have p: "replace_inf wm = Inr (fill_nonfinite (direct_max (find_finite wm)) wm) \<and>
         is_finite (direct_max (find_finite wm)) \<and>
         direct_max (find_finite wm) \<in> set (find_finite wm) \<and>
         (\<forall>x\<in>set (find_finite wm). \<not> vlt (direct_max (find_finite wm)) x)"
    using replace_inf_finite by blast
  show "replace_inf wm = Inr (fill_nonfinite (direct_max (find_finite wm)) wm)"
    using p by blast
  show "direct_max (find_finite wm) \<in> set (find_finite wm)" using p by blast
  show "\<forall>x\<in>set (find_finite wm). \<not> vlt (direct_max (find_finite wm)) x" using p by blast
  show "\<forall>i j. is_finite (cell (fill_nonfinite (direct_max (find_finite wm)) wm) i j)"
    using p by simp
next
  assume h: "pad_square m = Inr wm \<and> \<not> has_inf wm \<and> cell wm i j = NaN"
  let ?s0 = "s\<lparr>matrix_m := sub_col_min (sub_row_min wm),
                mask_m := \<lparr>n_rows = max (n_rows m) (n_cols m), n_cols = max (n_rows m) (n_cols m),
                           cell = (\<lambda>i j. NORMAL)\<rparr>,
                row_mask_m := (\<lambda>i. False), col_mask_m := (\<lambda>j. False)\<rparr>"
  have p: "prepare m s = Inr ?s0"
    unfolding prepare_def replace_inf_def using h by (simp add: Let_def)
  have "cell (matrix_m (snd (1::nat, ?s0))) i j = NaN" using h by simp
  then have "\<forall>k. cell (matrix_m (snd ((dispatch ^^ k) (1, ?s0)))) i j = NaN"
    using funpow_dispatch_nan by blast
  then show "\<exists>s0. prepare m s = Inr s0 \<and>
         (\<forall>k. cell (matrix_m (snd ((dispatch ^^ k) (1, s0)))) i j = NaN)"
    using p by blast
qed

lemma find_uncovered_cols_row:
  "fst (find_uncovered_cols m rm cm item cs r1) = fst (find_uncovered_cols m rm cm item cs r2) \<and>
   (fst (find_uncovered_cols m rm cm item cs r1) \<longrightarrow>
      find_uncovered_cols m rm cm item cs r1 = find_uncovered_cols m rm cm item cs r2)"
proof (induction cs arbitrary: r1 r2)
  case Nil
  show ?case by simp
next
  case (Cons col cs)
  show ?case
  proof (cases "cm col")
    case True
    have 1: "find_uncovered_cols m rm cm item (col # cs) r1 = find_uncovered_cols m rm cm item cs r1"
      using True by simp
    have 2: "find_uncovered_cols m rm cm item (col # cs) r2 = find_uncovered_cols m rm cm item cs r2"
      using True by simp
    show ?thesis unfolding 1 2 by (rule Cons.IH)
  next
    case False
    show ?thesis
    proof (cases "find (\<lambda>r. \<not> rm r \<and> veq (cell m r col) item) [0..<n_rows m]")
      case None
      have 1: "find_uncovered_cols m rm cm item (col # cs) r1 = find_uncovered_cols m rm cm item cs (n_rows m)"
        using False None by simp
      have 2: "find_uncovered_cols m rm cm item (col # cs) r2 = find_uncovered_cols m rm cm item cs (n_rows m)"
        using False None by simp
      show ?thesis unfolding 1 2 by simp
    next
      case (Some r)
      have 1: "find_uncovered_cols m rm cm item (col # cs) r1 = (True, r, col)"
        using False Some by simp
      have 2: "find_uncovered_cols m rm cm item (col # cs) r2 = (True, r, col)"
        using False Some by simp
      show ?thesis unfolding 1 2 by simp
    qed
  qed
qed

lemma find_uncovered_same:
  assumes "same_engine s t"
  shows "fst (find_uncovered item s) = fst (find_uncovered item t) \<and>
         (fst (find_uncovered item s) \<longrightarrow> find_uncovered item s = find_uncovered item t)"
proof -
  have e: "matrix_m t = matrix_m s" "row_mask_m t = row_mask_m s" "col_mask_m t = col_mask_m s"
    using assms unfolding same_engine_def by simp_all
  show ?thesis unfolding find_uncovered_def e by (rule find_uncovered_cols_row)
qed

lemma step1_same: "same_engine s t \<Longrightarrow> same_config (step1 s) (step1 t)"
  unfolding same_config_def same_engine_def step1_def by (simp add: Let_def)

lemma step2_same: "same_engine s t \<Longrightarrow> same_config (step2 s) (step2 t)"
  unfolding same_config_def same_engine_def step2_def by (simp add: Let_def)

lemma step3_same:
  assumes "same_engine s t" shows "same_config (step3 s) (step3 t)"
proof (cases "fst (find_uncovered (Fin 0) s)")
  case True
  then have e: "find_uncovered (Fin 0) s = find_uncovered (Fin 0) t"
    using find_uncovered_same[OF assms] by blast
  show ?thesis using assms True unfolding step3_def e[symmetric] same_config_def same_engine_def
    by (simp add: Let_def split: option.split)
next
  case False
  then have "\<not> fst (find_uncovered (Fin 0) t)" using find_uncovered_same[OF assms] by blast
  then show ?thesis using assms False unfolding step3_def same_config_def same_engine_def
    by (simp add: Let_def)
qed

lemma step4_same:
  assumes "same_engine s t" "saverow_m s = saverow_m t" "savecol_m s = savecol_m t"
  shows "same_config (step4 s) (step4 t)"
  using assms unfolding same_config_def same_engine_def step4_def by (simp add: Let_def)

lemma step5_same: "same_engine s t \<Longrightarrow> same_config (step5 s) (step5 t)"
  unfolding same_config_def same_engine_def step5_def step5_min_def by (simp add: Let_def)

lemma dispatch_same:
  assumes "same_config c d" shows "same_config (dispatch c) (dispatch d)"
proof -
  have f: "fst c = fst d" and e: "same_engine (snd c) (snd d)"
    using assms unfolding same_config_def by auto
  consider "fst c = 1" | "fst c = 2" | "fst c = 3" | "fst c = 4" | "fst c = 5"
    | "fst c \<noteq> 1 \<and> fst c \<noteq> 2 \<and> fst c \<noteq> 3 \<and> fst c \<noteq> 4 \<and> fst c \<noteq> 5" by blast
  then show ?thesis
  proof cases
    case 1 then show ?thesis using f step1_same[OF e] unfolding dispatch_def by simp
  next
    case 2 then show ?thesis using f step2_same[OF e] unfolding dispatch_def by simp
  next
    case 3 then show ?thesis using f step3_same[OF e] unfolding dispatch_def by simp
  next
    case 4
    then have "saverow_m (snd c) = saverow_m (snd d)" "savecol_m (snd c) = savecol_m (snd d)"
      using assms unfolding same_config_def by auto
    from step4_same[OF e this] show ?thesis using 4 f unfolding dispatch_def by simp
  next
    case 5 then show ?thesis using f step5_same[OF e] unfolding dispatch_def by simp
  next
    case 6 then show ?thesis using f assms unfolding dispatch_def by simp
  qed
qed

lemma run_steps_same_Some:
  assumes "run_steps c = Some s" "same_config c d"
  shows "\<exists>t. run_steps d = Some t \<and> same_engine s t"
proof -
  have "\<forall>d. same_config c d \<longrightarrow> (\<exists>t. run_steps d = Some t \<and> same_engine s t)"
  proof (rule run_steps.raw_induct[where P = "\<lambda>c s. \<forall>d. same_config c d \<longrightarrow>
            (\<exists>t. run_steps d = Some t \<and> same_engine s t)", OF _ assms(1)], goal_cases)
    case (1 run c s)
    show ?case
    proof (intro allI impI)
      fix d assume sc: "same_config c d"
      show "\<exists>t. run_steps d = Some t \<and> same_engine s t"
      proof (cases "fst c = 0")
        case True
        then have "s = snd c" using 1(2) by simp
        moreover have "fst d = 0" using True sc unfolding same_config_def by simp
        then have "run_steps d = Some (snd d)"
          using run_steps_done[of "snd d"] by (cases d) simp
        ultimately show ?thesis using sc unfolding same_config_def by simp
      next
        case False
        then have r: "run (dispatch c) = Some s" using 1(2) by simp
        have "\<forall>d'. same_config (dispatch c) d' \<longrightarrow>
            (\<exists>t. run_steps d' = Some t \<and> same_engine s t)"
          using 1(1)[OF r] .
        then obtain t where t: "run_steps (dispatch d) = Some t" "same_engine s t"
          using dispatch_same[OF sc] by blast
        have "fst d \<noteq> 0" using False sc unfolding same_config_def by simp
        then have "run_steps d = run_steps (dispatch d)" by (rule run_steps_step)
        then show ?thesis using t by simp
      qed
    qed
  qed
  then show ?thesis using assms(2) by blast
qed

lemma same_config_sym: "same_config c d \<Longrightarrow> same_config d c"
  unfolding same_config_def same_engine_def by auto

lemma extract_subs_same:
  "same_engine s t \<Longrightarrow> map_sum id fst (extract_subs r c s) = map_sum id fst (extract_subs r c t)"
  unfolding extract_subs_def same_engine_def by (simp add: Let_def split: sum.split)

lemma prepare_same:
  "(\<exists>e. prepare m s = Inl e \<and> prepare m t = Inl e) \<or>
   (\<exists>s0 t0. prepare m s = Inr s0 \<and> prepare m t = Inr t0 \<and> same_engine s0 t0)"
  unfolding prepare_def same_engine_def by (auto simp: Let_def split: sum.split)

text \<open>
  Claim C9: what \<open>solve\<close> returns (the subscripts, a failure, or no return at all)
  depends on the matrix only, not on the state of the object it is called on.
\<close>

theorem solve_independent_of_object:
  "returned (solve m s) = returned (solve m t)"
proof -
  from prepare_same[of m s t] show ?thesis
  proof
    assume "\<exists>e. prepare m s = Inl e \<and> prepare m t = Inl e"
    then show ?thesis unfolding solve_def returned_def by auto
  next
    assume "\<exists>s0 t0. prepare m s = Inr s0 \<and> prepare m t = Inr t0 \<and> same_engine s0 t0"
    then obtain s0 t0 where p: "prepare m s = Inr s0" "prepare m t = Inr t0"
      and e: "same_engine s0 t0" by blast
    have sc: "same_config (1, s0) (1, t0)" using e unfolding same_config_def by simp
    show ?thesis
    proof (cases "run_steps (1, s0)")
      case None
      have "run_steps (1, t0) = None"
      proof (rule ccontr)
        assume "run_steps (1, t0) \<noteq> None"
        then obtain t1 where "run_steps (1, t0) = Some t1" by auto
        from run_steps_same_Some[OF this same_config_sym[OF sc]] None show False by simp
      qed
      then show ?thesis using None p unfolding solve_def returned_def by simp
    next
      case (Some s1)
      from run_steps_same_Some[OF Some sc] obtain t1 where
        t1: "run_steps (1, t0) = Some t1" "same_engine s1 t1" by blast
      show ?thesis using Some t1 p extract_subs_same[OF t1(2)]
        unfolding solve_def returned_def by simp
    qed
  qed
qed

lemma star_in_col_iff: "star_in_col msk n c \<longleftrightarrow> (\<exists>i<n. cell msk i c = STAR)"
  unfolding star_in_col_def list_ex_iff by auto

lemma star_in_row_iff: "star_in_row msk n r \<longleftrightarrow> (\<exists>j<n. cell msk r j = STAR)"
  unfolding star_in_row_def list_ex_iff by auto

lemma star_inv_add:
  assumes "star_inv N msk" "\<forall>i<N. cell msk i c \<noteq> STAR" "\<forall>j<N. cell msk r j \<noteq> STAR"
  shows "star_inv N (set_cell msk r c STAR)"
  unfolding star_inv_def
proof (intro conjI allI impI)
  fix i j j' assume h: "i < N" "j < N" "j' < N" "cell (set_cell msk r c STAR) i j = STAR"
     "cell (set_cell msk r c STAR) i j' = STAR"
  show "j = j'"
  proof (cases "i = r")
    case True
    then have "j = c" "j' = c" using h assms(3) by (auto split: if_splits)
    then show ?thesis by simp
  next
    case False
    then have "cell msk i j = STAR" "cell msk i j' = STAR" using h by auto
    then show ?thesis using assms(1) h unfolding star_inv_def by blast
  qed
next
  fix i i' j assume h: "i < N" "i' < N" "j < N" "cell (set_cell msk r c STAR) i j = STAR"
     "cell (set_cell msk r c STAR) i' j = STAR"
  show "i = i'"
  proof (cases "j = c")
    case True
    then have "i = r" "i' = r" using h assms(2) by (auto split: if_splits)
    then show ?thesis by simp
  next
    case False
    then have "cell msk i j = STAR" "cell msk i' j = STAR" using h by auto
    then show ?thesis using assms(1) h unfolding star_inv_def by blast
  qed
qed

lemma step1_cell_inv:
  assumes "star_inv N msk" "n_rows m = N" "n_cols m = N" "fst rc < N" "snd rc < N"
  shows "star_inv N (step1_cell m rc msk)"
proof (cases "veq (Fin 0) (cell m (fst rc) (snd rc)) \<and>
              \<not> star_in_col msk N (snd rc) \<and> \<not> star_in_row msk N (fst rc)")
  case True
  then have "\<forall>i<N. cell msk i (snd rc) \<noteq> STAR" "\<forall>j<N. cell msk (fst rc) j \<noteq> STAR"
    unfolding star_in_col_iff star_in_row_iff by auto
  from star_inv_add[OF assms(1) this]
  show ?thesis using True assms(2,3) unfolding step1_cell_def by (simp add: Let_def)
next
  case False
  then have "step1_cell m rc msk = msk" using assms(2,3) unfolding step1_cell_def
    by (auto simp: Let_def)
  then show ?thesis using assms(1) by simp
qed

lemma step1_cell_other:
  "n_rows (step1_cell m rc msk) = n_rows msk \<and> n_cols (step1_cell m rc msk) = n_cols msk \<and>
   (cell (step1_cell m rc msk) i j = PRIME \<longrightarrow> cell msk i j = PRIME)"
  unfolding step1_cell_def by (simp add: Let_def)

lemma fold_step1_cell:
  assumes "star_inv N msk" "n_rows m = N" "n_cols m = N" "\<forall>rc\<in>set cells. fst rc < N \<and> snd rc < N"
  shows "star_inv N (fold (step1_cell m) cells msk) \<and>
         n_rows (fold (step1_cell m) cells msk) = n_rows msk \<and>
         n_cols (fold (step1_cell m) cells msk) = n_cols msk \<and>
         (\<forall>i j. cell (fold (step1_cell m) cells msk) i j = PRIME \<longrightarrow> cell msk i j = PRIME)"
  using assms(1,4)
proof (induction cells arbitrary: msk)
  case Nil
  then show ?case by simp
next
  case (Cons rc cells)
  have 1: "star_inv N (step1_cell m rc msk)"
    using step1_cell_inv[OF Cons.prems(1) assms(2,3)] Cons.prems(2) by simp
  have 2: "\<forall>rc\<in>set cells. fst rc < N \<and> snd rc < N" using Cons.prems(2) by simp
  from Cons.IH[OF 1 2] step1_cell_other[of m rc msk] show ?case by simp
qed

lemma set_product_upt: "set (List.product [0..<n] [0..<k]) = {(i, j). i < n \<and> j < k}"
  by auto

lemma step1_struct:
  assumes "dims N s" "inv2 N s"
  shows "struct_inv N (step1 s)"
proof -
  have c: "\<forall>rc\<in>set (List.product [0..<N] [0..<N]). fst rc < N \<and> snd rc < N" by auto
  have d: "n_rows (matrix_m s) = N" "n_cols (matrix_m s) = N" using assms(1) unfolding dims_def by auto
  have si: "star_inv N (mask_m s)" using assms(2) unfolding inv2_def by simp
  from fold_step1_cell[OF si d c]
  show ?thesis using assms unfolding struct_inv_def step1_def inv2_def dims_def
    by (auto simp: Let_def)
qed

lemma fold_step2_cell:
  "fst (fold (step2_cell msk) cells acc) j =
     (fst acc j \<or> (\<exists>i. (i, j) \<in> set cells \<and> cell msk i j = STAR)) \<and>
   snd (fold (step2_cell msk) cells acc) =
     snd acc + length (filter (\<lambda>rc. cell msk (fst rc) (snd rc) = STAR) cells)"
proof (induction cells arbitrary: acc)
  case Nil
  show ?case by simp
next
  case (Cons rc cells)
  obtain a b where rc: "rc = (a, b)" by (cases rc)
  have f: "fold (step2_cell msk) (rc # cells) acc = fold (step2_cell msk) cells (step2_cell msk rc acc)"
    by simp
  show ?case
  proof (cases "cell msk a b = STAR")
    case True
    then have e: "step2_cell msk rc acc = ((fst acc)(b := True), Suc (snd acc))"
      unfolding step2_cell_def rc by simp
    have 1: "fst (fold (step2_cell msk) cells ((fst acc)(b := True), Suc (snd acc))) j =
        (((fst acc)(b := True)) j \<or> (\<exists>i. (i, j) \<in> set cells \<and> cell msk i j = STAR))"
      and 2: "snd (fold (step2_cell msk) cells ((fst acc)(b := True), Suc (snd acc))) =
        Suc (snd acc) + length (filter (\<lambda>rc. cell msk (fst rc) (snd rc) = STAR) cells)"
      using Cons.IH[of "((fst acc)(b := True), Suc (snd acc))"] by simp_all
    have 3: "(((fst acc)(b := True)) j \<or> (\<exists>i. (i, j) \<in> set cells \<and> cell msk i j = STAR)) =
        (fst acc j \<or> (\<exists>i. (i, j) \<in> set (rc # cells) \<and> cell msk i j = STAR))"
      using True unfolding rc by auto
    show ?thesis unfolding f e 1 2 3 using True unfolding rc by simp
  next
    case False
    then have e: "step2_cell msk rc acc = acc" unfolding step2_cell_def rc by simp
    have 3: "(fst acc j \<or> (\<exists>i. (i, j) \<in> set cells \<and> cell msk i j = STAR)) =
        (fst acc j \<or> (\<exists>i. (i, j) \<in> set (rc # cells) \<and> cell msk i j = STAR))"
      using False unfolding rc by auto
    show ?thesis unfolding f e using Cons.IH[of acc] 3 False unfolding rc by simp
  qed
qed

lemma nstars_filter:
  "length (filter (\<lambda>rc. cell msk (fst rc) (snd rc) = STAR) (List.product [0..<N] [0..<N])) =
   nstars N msk"
proof -
  let ?xs = "filter (\<lambda>rc. cell msk (fst rc) (snd rc) = STAR) (List.product [0..<N] [0..<N])"
  have d: "distinct ?xs" by (simp add: distinct_product)
  have e: "set ?xs = {(i, j). i < N \<and> j < N \<and> cell msk i j = STAR}" by auto
  have "length ?xs = card (set ?xs)" using distinct_card[OF d] by (rule sym)
  then show ?thesis unfolding nstars_def e .
qed

lemma step2_result:
  assumes "dims N s"
  shows "mask_m (snd (step2 s)) = mask_m s" "row_mask_m (snd (step2 s)) = row_mask_m s"
    "j < N \<Longrightarrow> col_mask_m (snd (step2 s)) j = (col_mask_m s j \<or> (\<exists>i<N. cell (mask_m s) i j = STAR))"
    "fst (step2 s) = (if N \<le> nstars N (mask_m s) then 0 else 3)"
    "dims N (snd (step2 s))"
proof -
  have d: "n_rows (matrix_m s) = N" "n_cols (matrix_m s) = N" using assms unfolding dims_def by auto
  let ?acc = "fold (step2_cell (mask_m s)) (List.product [0..<N] [0..<N]) (col_mask_m s, 0)"
  have sn: "snd ?acc = nstars N (mask_m s)"
    using fold_step2_cell[of "mask_m s" "List.product [0..<N] [0..<N]" "(col_mask_m s, 0)"]
    by (simp add: nstars_filter)
  show "mask_m (snd (step2 s)) = mask_m s" "row_mask_m (snd (step2 s)) = row_mask_m s"
    unfolding step2_def by (simp_all add: Let_def)
  show "fst (step2 s) = (if N \<le> nstars N (mask_m s) then 0 else 3)"
    unfolding step2_def d using sn by (simp add: Let_def)
  show "dims N (snd (step2 s))" using assms unfolding step2_def dims_def by (simp add: Let_def)
  assume j: "j < N"
  have "fst ?acc j = (col_mask_m s j \<or> (\<exists>i<N. cell (mask_m s) i j = STAR))"
    using fold_step2_cell[of "mask_m s" "List.product [0..<N] [0..<N]" "(col_mask_m s, 0)" j] j
    by auto
  then show "col_mask_m (snd (step2 s)) j = (col_mask_m s j \<or> (\<exists>i<N. cell (mask_m s) i j = STAR))"
    unfolding step2_def d by (simp add: Let_def)
qed

lemma step2_struct:
  assumes "dims N s" "inv2 N s"
  shows "struct_inv N (step2 s)"
proof -
  note r = step2_result[OF assms(1)]
  have si: "star_inv N (mask_m s)" and np: "\<forall>i<N. \<forall>j<N. cell (mask_m s) i j \<noteq> PRIME"
    and rf: "\<forall>i<N. \<not> row_mask_m s i" and cf: "\<forall>j<N. \<not> col_mask_m s j"
    using assms(2) unfolding inv2_def by auto
  show ?thesis
  proof (cases "N \<le> nstars N (mask_m s)")
    case True
    then show ?thesis unfolding struct_inv_def inv0_def using r(1,4,5) si by simp
  next
    case False
    have cm: "col_mask_m (snd (step2 s)) j = (\<exists>i<N. cell (mask_m s) i j = STAR)" if "j < N" for j
      using r(3)[OF that] cf that by simp
    have "cover_inv N (snd (step2 s)) (\<lambda>i. 0)"
      unfolding cover_inv_def r(1,2) using si np rf False cm by auto
    then have "inv3 N (snd (step2 s))" unfolding inv3_def r(1,2) using np by blast
    then show ?thesis unfolding struct_inv_def using r(4,5) False by simp
  qed
qed

lemma find_uncovered_cols_found:
  "find_uncovered_cols m rm cm item cs row = (True, r, c) \<Longrightarrow>
   c \<in> set cs \<and> r < n_rows m \<and> \<not> rm r \<and> \<not> cm c \<and> veq (cell m r c) item"
proof (induction cs arbitrary: row)
  case Nil
  then show ?case by simp
next
  case (Cons col cs)
  show ?case
  proof (cases "cm col")
    case True
    then have "find_uncovered_cols m rm cm item cs row = (True, r, c)" using Cons.prems by simp
    from Cons.IH[OF this] show ?thesis by simp
  next
    case False
    show ?thesis
    proof (cases "find (\<lambda>r. \<not> rm r \<and> veq (cell m r col) item) [0..<n_rows m]")
      case None
      then have "find_uncovered_cols m rm cm item cs (n_rows m) = (True, r, c)"
        using Cons.prems False by simp
      from Cons.IH[OF this] show ?thesis by simp
    next
      case (Some r')
      then have "r = r'" "c = col" using Cons.prems False by simp_all
      then show ?thesis using Some False unfolding find_upt_Some by simp
    qed
  qed
qed

lemma find_uncovered_cols_none:
  "\<not> fst (find_uncovered_cols m rm cm item cs row) \<Longrightarrow>
   \<forall>c\<in>set cs. \<not> cm c \<longrightarrow> (\<forall>r<n_rows m. \<not> rm r \<longrightarrow> \<not> veq (cell m r c) item)"
proof (induction cs arbitrary: row)
  case Nil
  then show ?case by simp
next
  case (Cons col cs)
  show ?case
  proof (cases "cm col")
    case True
    then have "\<not> fst (find_uncovered_cols m rm cm item cs row)" using Cons.prems by simp
    from Cons.IH[OF this] show ?thesis using True by simp
  next
    case False
    show ?thesis
    proof (cases "find (\<lambda>r. \<not> rm r \<and> veq (cell m r col) item) [0..<n_rows m]")
      case None
      then have "\<not> fst (find_uncovered_cols m rm cm item cs (n_rows m))"
        using Cons.prems False by simp
      from Cons.IH[OF this] show ?thesis using None unfolding find_upt_None by auto
    next
      case (Some r')
      then show ?thesis using Cons.prems False by simp
    qed
  qed
qed

lemma find_uncovered_spec:
  assumes "dims N s"
  shows "fst (find_uncovered (Fin 0) s) \<longleftrightarrow> uncovered_zero N s"
    "fst (find_uncovered (Fin 0) s) \<Longrightarrow>
       fst (snd (find_uncovered (Fin 0) s)) < N \<and> snd (snd (find_uncovered (Fin 0) s)) < N \<and>
       \<not> row_mask_m s (fst (snd (find_uncovered (Fin 0) s))) \<and>
       \<not> col_mask_m s (snd (snd (find_uncovered (Fin 0) s))) \<and>
       veq (cell (matrix_m s) (fst (snd (find_uncovered (Fin 0) s)))
               (snd (snd (find_uncovered (Fin 0) s)))) (Fin 0)"
proof -
  have d: "n_rows (matrix_m s) = N" "n_cols (matrix_m s) = N" using assms unfolding dims_def by auto
  let ?res = "find_uncovered (Fin 0) s"
  have found: "fst (snd ?res) < N \<and> snd (snd ?res) < N \<and>
       \<not> row_mask_m s (fst (snd ?res)) \<and> \<not> col_mask_m s (snd (snd ?res)) \<and>
       veq (cell (matrix_m s) (fst (snd ?res)) (snd (snd ?res))) (Fin 0)" if "fst ?res"
  proof -
    have "?res = (True, fst (snd ?res), snd (snd ?res))" using that
      by (metis prod.collapse)
    then have "find_uncovered_cols (matrix_m s) (row_mask_m s) (col_mask_m s) (Fin 0) [0..<N]
        (saverow_m s) = (True, fst (snd ?res), snd (snd ?res))"
      unfolding find_uncovered_def d by simp
    from find_uncovered_cols_found[OF this] show ?thesis using d by simp
  qed
  then show "fst ?res \<Longrightarrow> fst (snd ?res) < N \<and> snd (snd ?res) < N \<and>
       \<not> row_mask_m s (fst (snd ?res)) \<and> \<not> col_mask_m s (snd (snd ?res)) \<and>
       veq (cell (matrix_m s) (fst (snd ?res)) (snd (snd ?res))) (Fin 0)" .
  show "fst ?res \<longleftrightarrow> uncovered_zero N s"
  proof
    assume "fst ?res"
    from found[OF this] show "uncovered_zero N s" unfolding uncovered_zero_def by blast
  next
    assume u: "uncovered_zero N s"
    show "fst ?res"
    proof (rule ccontr)
      assume "\<not> fst ?res"
      then have "\<not> fst (find_uncovered_cols (matrix_m s) (row_mask_m s) (col_mask_m s) (Fin 0)
         [0..<N] (saverow_m s))" unfolding find_uncovered_def d by simp
      from find_uncovered_cols_none[OF this] u show False
        unfolding uncovered_zero_def d by auto
    qed
  qed
qed

lemma cover_inv_cong:
  assumes "mask_m t = mask_m s" "row_mask_m t = row_mask_m s" "col_mask_m t = col_mask_m s"
  shows "cover_inv N t rk = cover_inv N s rk"
  unfolding cover_inv_def assms by simp

lemma nstars_cong:
  assumes "\<And>i j. i < N \<Longrightarrow> j < N \<Longrightarrow> (cell msk' i j = STAR) = (cell msk i j = STAR)"
  shows "nstars N msk' = nstars N msk"
proof -
  have "{(i, j). i < N \<and> j < N \<and> cell msk' i j = STAR} =
        {(i, j). i < N \<and> j < N \<and> cell msk i j = STAR}" using assms by auto
  then show ?thesis unfolding nstars_def by simp
qed

lemma rank_bump:
  assumes "i < (N::nat)"
  shows "rk i < Suc (Max (rk ` {..<N}))"
proof -
  have "rk i \<in> rk ` {..<N}" using assms by simp
  moreover have "finite (rk ` {..<N})" by simp
  ultimately have "rk i \<le> Max (rk ` {..<N})" by (rule Max_ge[rotated])
  then show ?thesis by simp
qed

lemma cover_invD:
  assumes "cover_inv N s rk"
  shows "star_inv N (mask_m s)"
    and "\<forall>i<N. row_mask_m s i \<longrightarrow>
         (\<exists>j<N. cell (mask_m s) i j = STAR) \<and> (\<exists>j<N. cell (mask_m s) i j = PRIME)"
    and "\<forall>i<N. \<forall>j<N. cell (mask_m s) i j = STAR \<longrightarrow> (row_mask_m s i \<longleftrightarrow> \<not> col_mask_m s j)"
    and "\<forall>j<N. col_mask_m s j \<longrightarrow> (\<exists>i<N. cell (mask_m s) i j = STAR)"
    and "\<forall>i<N. \<forall>j<N. cell (mask_m s) i j = PRIME \<longrightarrow> \<not> col_mask_m s j"
    and "\<forall>i<N. \<forall>j<N. \<forall>j'<N. cell (mask_m s) i j = PRIME \<longrightarrow> cell (mask_m s) i j' = PRIME \<longrightarrow> j = j'"
    and "\<forall>i<N. \<forall>i'<N. \<forall>j<N. cell (mask_m s) i j = PRIME \<longrightarrow> cell (mask_m s) i' j = STAR \<longrightarrow>
           rk i' < rk i"
    and "nstars N (mask_m s) < N"
  using assms unfolding cover_inv_def by simp_all

lemma cover_invI:
  assumes "star_inv N (mask_m s)"
    and "\<forall>i<N. row_mask_m s i \<longrightarrow>
         (\<exists>j<N. cell (mask_m s) i j = STAR) \<and> (\<exists>j<N. cell (mask_m s) i j = PRIME)"
    and "\<forall>i<N. \<forall>j<N. cell (mask_m s) i j = STAR \<longrightarrow> (row_mask_m s i \<longleftrightarrow> \<not> col_mask_m s j)"
    and "\<forall>j<N. col_mask_m s j \<longrightarrow> (\<exists>i<N. cell (mask_m s) i j = STAR)"
    and "\<forall>i<N. \<forall>j<N. cell (mask_m s) i j = PRIME \<longrightarrow> \<not> col_mask_m s j"
    and "\<forall>i<N. \<forall>j<N. \<forall>j'<N. cell (mask_m s) i j = PRIME \<longrightarrow> cell (mask_m s) i j' = PRIME \<longrightarrow> j = j'"
    and "\<forall>i<N. \<forall>i'<N. \<forall>j<N. cell (mask_m s) i j = PRIME \<longrightarrow> cell (mask_m s) i' j = STAR \<longrightarrow>
           rk i' < rk i"
    and "nstars N (mask_m s) < N"
  shows "cover_inv N s rk"
  unfolding cover_inv_def by (intro conjI assms)

text \<open>Priming an uncovered cell whose row holds no star (step 3 going to step 4).\<close>

lemma prime_unstarred_row:
  assumes ci: "cover_inv N s rk"
    and pc: "\<forall>i<N. \<forall>j<N. cell (mask_m s) i j = PRIME \<longrightarrow> row_mask_m s i"
    and r: "r < N" and c: "c < N" and ur: "\<not> row_mask_m s r" and uc: "\<not> col_mask_m s c"
    and ns: "\<forall>j<N. cell (mask_m s) r j \<noteq> STAR"
    and t: "mask_m t = set_cell (mask_m s) r c PRIME" "row_mask_m t = row_mask_m s"
           "col_mask_m t = col_mask_m s"
  shows "cover_inv N t (rk(r := Suc (Max (rk ` {..<N}))))"
    and "\<forall>i<N. \<forall>j<N. cell (mask_m t) i j = PRIME \<longrightarrow> i \<noteq> r \<longrightarrow> row_mask_m t i"
proof -
  let ?m = "mask_m s" and ?rk = "rk(r := Suc (Max (rk ` {..<N})))"
  note si = cover_invD(1)[OF ci] and a = cover_invD(2)[OF ci] and b = cover_invD(3)[OF ci]
    and cc = cover_invD(4)[OF ci] and d = cover_invD(5)[OF ci] and e = cover_invD(6)[OF ci]
    and f = cover_invD(7)[OF ci] and g = cover_invD(8)[OF ci]
  have st: "(cell (mask_m t) i j = STAR) = (cell ?m i j = STAR)" if "i < N" "j < N" for i j
    using ns that unfolding t by auto
  have pr: "(cell (mask_m t) i j = PRIME) = (cell ?m i j = PRIME \<or> (i = r \<and> j = c))" for i j
    unfolding t by auto
  have 1: "star_inv N (mask_m t)" using si st unfolding star_inv_def by simp
  have 2: "\<forall>i<N. row_mask_m t i \<longrightarrow>
         (\<exists>j<N. cell (mask_m t) i j = STAR) \<and> (\<exists>j<N. cell (mask_m t) i j = PRIME)"
    using a st pr unfolding t(2) by (metis)
  have 3: "\<forall>i<N. \<forall>j<N. cell (mask_m t) i j = STAR \<longrightarrow> (row_mask_m t i \<longleftrightarrow> \<not> col_mask_m t j)"
    using b st unfolding t(2,3) by simp
  have 4: "\<forall>j<N. col_mask_m t j \<longrightarrow> (\<exists>i<N. cell (mask_m t) i j = STAR)"
  proof (intro allI impI)
    fix j assume h: "j < N" "col_mask_m t j"
    then have "col_mask_m s j" unfolding t by simp
    then obtain i where "i < N" "cell ?m i j = STAR" using cc h(1) by blast
    then show "\<exists>i<N. cell (mask_m t) i j = STAR" using st h(1) by blast
  qed
  have 5: "\<forall>i<N. \<forall>j<N. cell (mask_m t) i j = PRIME \<longrightarrow> \<not> col_mask_m t j"
    using d uc unfolding pr t(3) by auto
  have nopr: "cell ?m r j \<noteq> PRIME" if "j < N" for j using pc r ur that by blast
  have 6: "\<forall>i<N. \<forall>j<N. \<forall>j'<N. cell (mask_m t) i j = PRIME \<longrightarrow> cell (mask_m t) i j' = PRIME \<longrightarrow> j = j'"
    using e nopr unfolding pr by blast
  have 7: "\<forall>i<N. \<forall>i'<N. \<forall>j<N. cell (mask_m t) i j = PRIME \<longrightarrow> cell (mask_m t) i' j = STAR \<longrightarrow>
           ?rk i' < ?rk i"
  proof (intro allI impI)
    fix i i' j assume h: "i < N" "i' < N" "j < N" "cell (mask_m t) i j = PRIME"
      "cell (mask_m t) i' j = STAR"
    have s': "cell ?m i' j = STAR" using h st by simp
    then have ir: "i' \<noteq> r" using ns h by auto
    show "?rk i' < ?rk i"
    proof (cases "i = r")
      case True
      then show ?thesis using ir rank_bump[OF h(2), of rk] by simp
    next
      case False
      then have "cell ?m i j = PRIME" using h pr by simp
      then show ?thesis using f h s' ir False by simp
    qed
  qed
  have 8: "nstars N (mask_m t) < N" using nstars_cong[of N "mask_m t" ?m] st g by simp
  show "cover_inv N t ?rk" using 1 2 3 4 5 6 7 8 by (rule cover_invI)
  show "\<forall>i<N. \<forall>j<N. cell (mask_m t) i j = PRIME \<longrightarrow> i \<noteq> r \<longrightarrow> row_mask_m t i"
    using pc unfolding pr t(2) by auto
qed

text \<open>Priming an uncovered cell whose row holds a star: cover the row, uncover the star's column.\<close>

lemma prime_starred_row:
  assumes ci: "cover_inv N s rk"
    and pc: "\<forall>i<N. \<forall>j<N. cell (mask_m s) i j = PRIME \<longrightarrow> row_mask_m s i"
    and r: "r < N" and c: "c < N" and ur: "\<not> row_mask_m s r" and uc: "\<not> col_mask_m s c"
    and col: "col < N" "cell (mask_m s) r col = STAR"
    and t: "mask_m t = set_cell (mask_m s) r c PRIME" "row_mask_m t = (row_mask_m s)(r := True)"
           "col_mask_m t = (col_mask_m s)(col := False)"
  shows "cover_inv N t (rk(r := Suc (Max (rk ` {..<N}))))"
    and "\<forall>i<N. \<forall>j<N. cell (mask_m t) i j = PRIME \<longrightarrow> row_mask_m t i"
proof -
  let ?m = "mask_m s" and ?rk = "rk(r := Suc (Max (rk ` {..<N})))"
  note si = cover_invD(1)[OF ci] and a = cover_invD(2)[OF ci] and b = cover_invD(3)[OF ci]
    and cc = cover_invD(4)[OF ci] and d = cover_invD(5)[OF ci] and e = cover_invD(6)[OF ci]
    and f = cover_invD(7)[OF ci] and g = cover_invD(8)[OF ci]
  have ccol: "col_mask_m s col" using b r col ur by blast
  have cne: "c \<noteq> col" using ccol uc by auto
  have rowr: "j = col" if "j < N" "cell ?m r j = STAR" for j
    using si r col that unfolding star_inv_def by blast
  have colc: "i = r" if "i < N" "cell ?m i col = STAR" for i
    using si r col that unfolding star_inv_def by blast
  have st: "(cell (mask_m t) i j = STAR) = (cell ?m i j = STAR)" if "i < N" "j < N" for i j
    using rowr[of j] cne that unfolding t by auto
  have pr: "(cell (mask_m t) i j = PRIME) = (cell ?m i j = PRIME \<or> (i = r \<and> j = c))" for i j
    unfolding t by auto
  have 1: "star_inv N (mask_m t)" using si st unfolding star_inv_def by simp
  have 2: "\<forall>i<N. row_mask_m t i \<longrightarrow>
         (\<exists>j<N. cell (mask_m t) i j = STAR) \<and> (\<exists>j<N. cell (mask_m t) i j = PRIME)"
  proof (intro allI impI)
    fix i assume h: "i < N" "row_mask_m t i"
    show "(\<exists>j<N. cell (mask_m t) i j = STAR) \<and> (\<exists>j<N. cell (mask_m t) i j = PRIME)"
    proof (cases "i = r")
      case True
      have "cell (mask_m t) r col = STAR" using st[OF r col(1)] col(2) by simp
      moreover have "cell (mask_m t) r c = PRIME" unfolding pr by simp
      ultimately show ?thesis using True col(1) c by blast
    next
      case False
      then have "row_mask_m s i" using h unfolding t by simp
      then show ?thesis using a h(1) st pr by metis
    qed
  qed
  have 3: "\<forall>i<N. \<forall>j<N. cell (mask_m t) i j = STAR \<longrightarrow> (row_mask_m t i \<longleftrightarrow> \<not> col_mask_m t j)"
  proof (intro allI impI)
    fix i j assume h: "i < N" "j < N" "cell (mask_m t) i j = STAR"
    then have s': "cell ?m i j = STAR" using st by simp
    show "row_mask_m t i \<longleftrightarrow> \<not> col_mask_m t j"
    proof (cases "i = r")
      case True
      then have "j = col" using rowr h(2) s' by simp
      then show ?thesis using True unfolding t by simp
    next
      case False
      then have "j \<noteq> col" using colc h(1) s' by auto
      then show ?thesis using False b h(1,2) s' unfolding t by simp
    qed
  qed
  have 4: "\<forall>j<N. col_mask_m t j \<longrightarrow> (\<exists>i<N. cell (mask_m t) i j = STAR)"
  proof (intro allI impI)
    fix j assume h: "j < N" "col_mask_m t j"
    then have "col_mask_m s j" unfolding t by (auto split: if_splits)
    then obtain i where "i < N" "cell ?m i j = STAR" using cc h(1) by blast
    then show "\<exists>i<N. cell (mask_m t) i j = STAR" using st h(1) by blast
  qed
  have 5: "\<forall>i<N. \<forall>j<N. cell (mask_m t) i j = PRIME \<longrightarrow> \<not> col_mask_m t j"
    using d uc unfolding pr t(3) by auto
  have nopr: "cell ?m r j \<noteq> PRIME" if "j < N" for j using pc r ur that by blast
  have 6: "\<forall>i<N. \<forall>j<N. \<forall>j'<N. cell (mask_m t) i j = PRIME \<longrightarrow> cell (mask_m t) i j' = PRIME \<longrightarrow> j = j'"
    using e nopr unfolding pr by blast
  have 7: "\<forall>i<N. \<forall>i'<N. \<forall>j<N. cell (mask_m t) i j = PRIME \<longrightarrow> cell (mask_m t) i' j = STAR \<longrightarrow>
           ?rk i' < ?rk i"
  proof (intro allI impI)
    fix i i' j assume h: "i < N" "i' < N" "j < N" "cell (mask_m t) i j = PRIME"
      "cell (mask_m t) i' j = STAR"
    have s': "cell ?m i' j = STAR" using h st by simp
    show "?rk i' < ?rk i"
    proof (cases "i = r")
      case True
      then have "j = c" using h(3,4) nopr unfolding pr by auto
      then have "i' \<noteq> r" using s' rowr[OF c] cne by auto
      then show ?thesis using True rank_bump[OF h(2), of rk] by simp
    next
      case False
      then have p: "cell ?m i j = PRIME" using h pr by simp
      then have "\<not> col_mask_m s j" using d h by blast
      then have "j \<noteq> col" using ccol by auto
      then have "i' \<noteq> r" using s' rowr[OF h(3)] by auto
      then show ?thesis using f h s' p False by simp
    qed
  qed
  have 8: "nstars N (mask_m t) < N" using nstars_cong[of N "mask_m t" ?m] st g by simp
  show "cover_inv N t ?rk" using 1 2 3 4 5 6 7 8 by (rule cover_invI)
  show "\<forall>i<N. \<forall>j<N. cell (mask_m t) i j = PRIME \<longrightarrow> row_mask_m t i"
    using pc unfolding pr t(2) by auto
qed

lemma inv3_no_star_uncovered:
  assumes "cover_inv N s rk" "r < N" "c < N" "\<not> row_mask_m s r" "\<not> col_mask_m s c"
  shows "cell (mask_m s) r c \<noteq> STAR"
  using cover_invD(3)[OF assms(1)] assms(2-5) by blast

lemma step3_struct:
  assumes dm: "dims N s" and i3: "inv3 N s"
  shows "struct_inv N (step3 s)"
proof -
  obtain rk where ci: "cover_inv N s rk"
    and pc: "\<forall>i<N. \<forall>j<N. cell (mask_m s) i j = PRIME \<longrightarrow> row_mask_m s i"
    using i3 unfolding inv3_def by blast
  have d: "n_rows (matrix_m s) = N" "n_cols (matrix_m s) = N" using dm unfolding dims_def by auto
  define res where "res = find_uncovered (Fin 0) s"
  define r where "r = fst (snd res)"
  define c where "c = snd (snd res)"
  define s2 where "s2 = s\<lparr>saverow_m := r, savecol_m := c,
                          mask_m := set_cell (mask_m s) r c PRIME\<rparr>"
  show ?thesis
  proof (cases "fst res")
    case False
    then have e: "step3 s = (5, s\<lparr>saverow_m := r, savecol_m := c\<rparr>)"
      unfolding step3_def res_def r_def c_def by (simp add: Let_def)
    have "cover_inv N (s\<lparr>saverow_m := r, savecol_m := c\<rparr>) rk"
      using ci cover_inv_cong[of "s\<lparr>saverow_m := r, savecol_m := c\<rparr>" s N rk] by simp
    then have "inv3 N (s\<lparr>saverow_m := r, savecol_m := c\<rparr>)"
      unfolding inv3_def using pc by auto
    then show ?thesis unfolding e struct_inv_def using dm by (simp add: dims_def)
  next
    case True
    from find_uncovered_spec(2)[OF dm] True
    have rc: "r < N" "c < N" "\<not> row_mask_m s r" "\<not> col_mask_m s c"
      unfolding res_def r_def c_def by auto
    have nst: "cell (mask_m s) r c \<noteq> STAR"
      using inv3_no_star_uncovered[OF ci rc] .
    have m2: "cell (mask_m s2) r j = STAR \<longleftrightarrow> cell (mask_m s) r j = STAR" for j
      using nst unfolding s2_def by auto
    have dm2: "dims N s2" using dm unfolding s2_def dims_def by simp
    show ?thesis
    proof (cases "find (\<lambda>col. cell (mask_m s2) r col = STAR) [0..<N]")
      case None
      then have ns: "\<forall>j<N. cell (mask_m s) r j \<noteq> STAR"
        unfolding find_upt_None m2 by simp
      have e: "step3 s = (4, s2)"
        using True None unfolding step3_def res_def[symmetric] r_def[symmetric] c_def[symmetric]
        by (simp add: Let_def d s2_def r_def c_def)
      have t: "mask_m s2 = set_cell (mask_m s) r c PRIME" "row_mask_m s2 = row_mask_m s"
        "col_mask_m s2 = col_mask_m s" unfolding s2_def by simp_all
      from prime_unstarred_row[OF ci pc rc ns t]
      have 1: "\<exists>rk. cover_inv N s2 rk"
        and 2: "\<forall>i<N. \<forall>j<N. cell (mask_m s2) i j = PRIME \<longrightarrow> i \<noteq> r \<longrightarrow> row_mask_m s2 i"
        by blast+
      have 3: "saverow_m s2 = r" "savecol_m s2 = c" unfolding s2_def by simp_all
      have 4: "cell (mask_m s2) r c = PRIME" unfolding t by simp
      have 5: "\<forall>j<N. cell (mask_m s2) r j \<noteq> STAR" using ns m2 by simp
      have "inv4 N s2" unfolding inv4_def 3 using 1 2 4 5 rc t(2) by simp
      then show ?thesis unfolding e struct_inv_def using dm2 by simp
    next
      case (Some col)
      then have col: "col < N" "cell (mask_m s) r col = STAR"
        unfolding find_upt_Some m2 by simp_all
      define t where "t = s2\<lparr>row_mask_m := (row_mask_m s2)(r := True),
                              col_mask_m := (col_mask_m s2)(col := False)\<rparr>"
      have e: "step3 s = (3, t)"
        using True Some unfolding step3_def res_def[symmetric] r_def[symmetric] c_def[symmetric]
        by (simp add: Let_def d s2_def t_def r_def c_def)
      have tt: "mask_m t = set_cell (mask_m s) r c PRIME" "row_mask_m t = (row_mask_m s)(r := True)"
        "col_mask_m t = (col_mask_m s)(col := False)" unfolding t_def s2_def by simp_all
      from prime_starred_row[OF ci pc rc col tt]
      have "inv3 N t" unfolding inv3_def by blast
      moreover have "dims N t" using dm2 unfolding t_def dims_def by simp
      ultimately show ?thesis unfolding e struct_inv_def by simp
    qed
  qed
qed

lemma step5_struct:
  assumes dm: "dims N s" and i3: "inv3 N s"
  shows "struct_inv N (step5 s)"
proof -
  have m: "mask_m (snd (step5 s)) = mask_m s" "row_mask_m (snd (step5 s)) = row_mask_m s"
    "col_mask_m (snd (step5 s)) = col_mask_m s" "fst (step5 s) = 3"
    unfolding step5_def by (simp_all add: Let_def)
  have "inv3 N (snd (step5 s))" using i3 unfolding inv3_def m cover_inv_cong[OF m(1,2,3)] .
  moreover have "dims N (snd (step5 s))"
    using dm unfolding dims_def m step5_matrix by simp
  ultimately show ?thesis unfolding struct_inv_def m by simp
qed

declare step4_loop.simps [simp del]

lemma path_invD:
  assumes "path_inv N msk rk col seq"
  shows "distinct seq"
    and "\<forall>p\<in>set seq. fst p < N \<and> snd p < N \<and>
           (cell msk (fst p) (snd p) = STAR \<or> cell msk (fst p) (snd p) = PRIME)"
    and "length (filter (\<lambda>p. cell msk (fst p) (snd p) = PRIME) seq) =
        Suc (length (filter (\<lambda>p. cell msk (fst p) (snd p) = STAR) seq))"
    and "\<forall>p\<in>set seq. cell msk (fst p) (snd p) = PRIME \<longrightarrow>
           (\<forall>j<N. cell msk (fst p) j = STAR \<longrightarrow> (fst p, j) \<in> set seq)"
    and "\<forall>p\<in>set seq. cell msk (fst p) (snd p) = PRIME \<longrightarrow> snd p \<noteq> col \<longrightarrow>
           (\<exists>i<N. cell msk i (snd p) = STAR \<and> (i, snd p) \<in> set seq)"
    and "\<exists>r<N. (r, col) \<in> set seq \<and> cell msk r col = PRIME \<and>
           (\<forall>p\<in>set seq. (snd p = col \<longrightarrow> fst p = r) \<and> rk r \<le> rk (fst p))"
    and "\<forall>p\<in>set seq. \<forall>q\<in>set seq. cell msk (fst p) (snd p) = PRIME \<longrightarrow>
           cell msk (fst q) (snd q) = PRIME \<longrightarrow> snd p = snd q \<longrightarrow> p = q"
proof -
  note c = assms[unfolded path_inv_def]
  show "distinct seq" using c by (elim conjE)
  show "\<forall>p\<in>set seq. fst p < N \<and> snd p < N \<and>
           (cell msk (fst p) (snd p) = STAR \<or> cell msk (fst p) (snd p) = PRIME)"
    using c by (elim conjE)
  show "length (filter (\<lambda>p. cell msk (fst p) (snd p) = PRIME) seq) =
        Suc (length (filter (\<lambda>p. cell msk (fst p) (snd p) = STAR) seq))"
    using c by (elim conjE)
  show "\<forall>p\<in>set seq. cell msk (fst p) (snd p) = PRIME \<longrightarrow>
           (\<forall>j<N. cell msk (fst p) j = STAR \<longrightarrow> (fst p, j) \<in> set seq)"
    using c by (elim conjE)
  show "\<forall>p\<in>set seq. cell msk (fst p) (snd p) = PRIME \<longrightarrow> snd p \<noteq> col \<longrightarrow>
           (\<exists>i<N. cell msk i (snd p) = STAR \<and> (i, snd p) \<in> set seq)"
    using c by (elim conjE)
  show "\<exists>r<N. (r, col) \<in> set seq \<and> cell msk r col = PRIME \<and>
           (\<forall>p\<in>set seq. (snd p = col \<longrightarrow> fst p = r) \<and> rk r \<le> rk (fst p))"
    using c by (elim conjE)
  show "\<forall>p\<in>set seq. \<forall>q\<in>set seq. cell msk (fst p) (snd p) = PRIME \<longrightarrow>
           cell msk (fst q) (snd q) = PRIME \<longrightarrow> snd p = snd q \<longrightarrow> p = q"
    using c by (elim conjE)
qed

lemma path_invI:
  assumes "distinct seq"
    and "\<forall>p\<in>set seq. fst p < N \<and> snd p < N \<and>
           (cell msk (fst p) (snd p) = STAR \<or> cell msk (fst p) (snd p) = PRIME)"
    and "length (filter (\<lambda>p. cell msk (fst p) (snd p) = PRIME) seq) =
        Suc (length (filter (\<lambda>p. cell msk (fst p) (snd p) = STAR) seq))"
    and "\<forall>p\<in>set seq. cell msk (fst p) (snd p) = PRIME \<longrightarrow>
           (\<forall>j<N. cell msk (fst p) j = STAR \<longrightarrow> (fst p, j) \<in> set seq)"
    and "\<forall>p\<in>set seq. cell msk (fst p) (snd p) = PRIME \<longrightarrow> snd p \<noteq> col \<longrightarrow>
           (\<exists>i<N. cell msk i (snd p) = STAR \<and> (i, snd p) \<in> set seq)"
    and "\<exists>r<N. (r, col) \<in> set seq \<and> cell msk r col = PRIME \<and>
           (\<forall>p\<in>set seq. (snd p = col \<longrightarrow> fst p = r) \<and> rk r \<le> rk (fst p))"
    and "\<forall>p\<in>set seq. \<forall>q\<in>set seq. cell msk (fst p) (snd p) = PRIME \<longrightarrow>
           cell msk (fst q) (snd q) = PRIME \<longrightarrow> snd p = snd q \<longrightarrow> p = q"
  shows "path_inv N msk rk col seq"
  unfolding path_inv_def by (intro conjI assms)

lemma path_doneI:
  assumes "distinct seq"
    and "\<forall>p\<in>set seq. fst p < N \<and> snd p < N \<and>
           (cell msk (fst p) (snd p) = STAR \<or> cell msk (fst p) (snd p) = PRIME)"
    and "length (filter (\<lambda>p. cell msk (fst p) (snd p) = PRIME) seq) =
        Suc (length (filter (\<lambda>p. cell msk (fst p) (snd p) = STAR) seq))"
    and "\<forall>p\<in>set seq. cell msk (fst p) (snd p) = PRIME \<longrightarrow>
           (\<forall>j<N. cell msk (fst p) j = STAR \<longrightarrow> (fst p, j) \<in> set seq)"
    and "\<forall>p\<in>set seq. cell msk (fst p) (snd p) = PRIME \<longrightarrow>
           (\<forall>i<N. cell msk i (snd p) = STAR \<longrightarrow> (i, snd p) \<in> set seq)"
    and "\<forall>p\<in>set seq. \<forall>q\<in>set seq. cell msk (fst p) (snd p) = PRIME \<longrightarrow>
           cell msk (fst q) (snd q) = PRIME \<longrightarrow> snd p = snd q \<longrightarrow> p = q"
  shows "path_done N msk seq"
  unfolding path_done_def by (intro conjI assms)

text \<open>Leaving the loop: the column of the last primed zero holds no star.\<close>

lemma path_exit:
  assumes si: "star_inv N msk"
    and pi: "path_inv N msk rk col seq"
    and nf: "\<forall>row<N. \<not> (cell msk row col = STAR \<and> (row, col) \<notin> set seq)"
  shows "path_done N msk seq"
proof -
  note P = path_invD[OF pi]
  obtain r where r: "r < N" "(r, col) \<in> set seq" "cell msk r col = PRIME"
    "\<forall>p\<in>set seq. (snd p = col \<longrightarrow> fst p = r) \<and> rk r \<le> rk (fst p)"
    using P(6) by blast
  have nostar: "cell msk i col \<noteq> STAR" if "i < N" for i
  proof
    assume s: "cell msk i col = STAR"
    then have "(i, col) \<in> set seq" using nf that by blast
    then have "i = r" using r(4) by auto
    then show False using s r(3) by simp
  qed
  have D: "\<forall>p\<in>set seq. cell msk (fst p) (snd p) = PRIME \<longrightarrow>
           (\<forall>i<N. cell msk i (snd p) = STAR \<longrightarrow> (i, snd p) \<in> set seq)"
  proof (intro ballI impI allI)
    fix p i assume h: "p \<in> set seq" "cell msk (fst p) (snd p) = PRIME" "i < N"
      "cell msk i (snd p) = STAR"
    then have ne: "snd p \<noteq> col" using nostar by auto
    then obtain i' where i': "i' < N" "cell msk i' (snd p) = STAR" "(i', snd p) \<in> set seq"
      using P(5) h(1,2) by blast
    have "snd p < N" using P(2) h(1) by blast
    then have "i = i'" using si h(3,4) i'(1,2) unfolding star_inv_def by blast
    then show "(i, snd p) \<in> set seq" using i'(3) by simp
  qed
  show ?thesis using P(1,2,3,4) D P(7) by (rule path_doneI)
qed

text \<open>Staying in the loop: the star found in the column and the prime of its row.\<close>

lemma path_extend:
  assumes ci: "cover_inv N s rk"
    and pi: "path_inv N (mask_m s) rk col seq"
    and row: "row < N" "cell (mask_m s) row col = STAR"
  shows "\<exists>c<N. cell (mask_m s) row c = PRIME"
    and "(row, col) \<notin> set seq"
    and "\<And>c. cell (mask_m s) row c = PRIME \<Longrightarrow> (row, c) \<notin> set (seq @ [(row, col)])"
    and "\<And>c. c < N \<Longrightarrow> cell (mask_m s) row c = PRIME \<Longrightarrow>
           path_inv N (mask_m s) rk c (seq @ [(row, col)] @ [(row, c)])"
proof -
  let ?m = "mask_m s"
  note si = cover_invD(1)[OF ci] and a = cover_invD(2)[OF ci] and b = cover_invD(3)[OF ci]
    and d = cover_invD(5)[OF ci] and e = cover_invD(6)[OF ci] and f = cover_invD(7)[OF ci]
  note P = path_invD[OF pi]
  obtain r where r: "r < N" "(r, col) \<in> set seq" "cell ?m r col = PRIME"
    and rr: "\<forall>p\<in>set seq. (snd p = col \<longrightarrow> fst p = r) \<and> rk r \<le> rk (fst p)"
    using P(6) by blast
  have colN: "col < N" using P(2) r(2) by force
  have "\<not> col_mask_m s col" using d r(1,3) colN by blast
  then have cov: "row_mask_m s row" using b row colN by blast
  then show ex: "\<exists>c<N. cell ?m row c = PRIME" using a row(1) by blast
  have rkrow: "rk row < rk r" using f r(1,3) row colN by blast
  have notrow: "fst p \<noteq> row" if "p \<in> set seq" for p
  proof
    assume "fst p = row"
    then have "rk r \<le> rk row" using rr that by auto
    then show False using rkrow by simp
  qed
  show n1: "(row, col) \<notin> set seq" using notrow by force
  show n2: "(row, c) \<notin> set (seq @ [(row, col)])" if "cell ?m row c = PRIME" for c
  proof -
    have "(row, c) \<notin> set seq" using notrow by force
    moreover have "c \<noteq> col" using that row(2) by auto
    ultimately show ?thesis by simp
  qed
  fix c assume c: "c < N" "cell ?m row c = PRIME"
  let ?seq = "seq @ [(row, col)] @ [(row, c)]"
  have cne: "c \<noteq> col" using c(2) row(2) by auto
  have inseq: "p \<in> set ?seq \<longleftrightarrow> p \<in> set seq \<or> p = (row, col) \<or> p = (row, c)" for p
    by auto
  have rowstar: "j = col" if "j < N" "cell ?m row j = STAR" for j
    using si row colN that unfolding star_inv_def by blast
  have nocol: "snd p \<noteq> c" if p: "p \<in> set seq" for p
  proof
    assume sc: "snd p = c"
    have pm: "fst p < N" "cell ?m (fst p) (snd p) = STAR \<or> cell ?m (fst p) (snd p) = PRIME"
      using P(2) p by auto
    have hi: "rk row < rk (fst p)" using rr p rkrow by force
    show False using pm(2)
    proof
      assume "cell ?m (fst p) (snd p) = STAR"
      then have "rk (fst p) < rk row" using f row(1) c pm(1) sc by blast
      then show False using hi by simp
    next
      assume pp: "cell ?m (fst p) (snd p) = PRIME"
      have "snd p \<noteq> col" using sc cne by simp
      then obtain i' where i': "i' < N" "cell ?m i' (snd p) = STAR" "(i', snd p) \<in> set seq"
        using P(5) p pp by blast
      have "rk i' < rk row" using f row(1) c i'(1,2) sc by blast
      moreover have "rk r \<le> rk i'" using rr i'(3) by force
      ultimately show False using rkrow by simp
    qed
  qed
  have 1: "distinct ?seq" using P(1) n1 n2[OF c(2)] cne by simp
  have 2: "\<forall>p\<in>set ?seq. fst p < N \<and> snd p < N \<and>
           (cell ?m (fst p) (snd p) = STAR \<or> cell ?m (fst p) (snd p) = PRIME)"
    using P(2) row colN c by auto
  have 3: "length (filter (\<lambda>p. cell ?m (fst p) (snd p) = PRIME) ?seq) =
        Suc (length (filter (\<lambda>p. cell ?m (fst p) (snd p) = STAR) ?seq))"
    using P(3) row(2) c(2) by simp
  have 4: "\<forall>p\<in>set ?seq. cell ?m (fst p) (snd p) = PRIME \<longrightarrow>
           (\<forall>j<N. cell ?m (fst p) j = STAR \<longrightarrow> (fst p, j) \<in> set ?seq)"
  proof (intro ballI impI allI)
    fix p j assume h: "p \<in> set ?seq" "cell ?m (fst p) (snd p) = PRIME" "j < N"
      "cell ?m (fst p) j = STAR"
    from h(1) consider "p \<in> set seq" | "p = (row, col)" | "p = (row, c)" by auto
    then show "(fst p, j) \<in> set ?seq"
    proof cases
      case 1
      then have "(fst p, j) \<in> set seq" using P(4) h(2,3,4) by blast
      then show ?thesis by simp
    next
      case 2
      then show ?thesis using h(2) row(2) by simp
    next
      case 3
      then have "j = col" using rowstar h(3,4) by simp
      then show ?thesis using 3 by simp
    qed
  qed
  have 5: "\<forall>p\<in>set ?seq. cell ?m (fst p) (snd p) = PRIME \<longrightarrow> snd p \<noteq> c \<longrightarrow>
           (\<exists>i<N. cell ?m i (snd p) = STAR \<and> (i, snd p) \<in> set ?seq)"
  proof (intro ballI impI)
    fix p assume h: "p \<in> set ?seq" "cell ?m (fst p) (snd p) = PRIME" "snd p \<noteq> c"
    from h(1) consider "p \<in> set seq" | "p = (row, col)" | "p = (row, c)" by auto
    then show "\<exists>i<N. cell ?m i (snd p) = STAR \<and> (i, snd p) \<in> set ?seq"
    proof cases
      case 1
      show ?thesis
      proof (cases "snd p = col")
        case True
        then show ?thesis using row by (intro exI[of _ row]) simp
      next
        case False
        then obtain i where "i < N" "cell ?m i (snd p) = STAR" "(i, snd p) \<in> set seq"
          using P(5) 1 h(2) by blast
        then show ?thesis by (intro exI[of _ i]) simp
      qed
    next
      case 2
      then show ?thesis using h(2) row(2) by simp
    next
      case 3
      then show ?thesis using h(3) by simp
    qed
  qed
  have 6: "\<exists>r<N. (r, c) \<in> set ?seq \<and> cell ?m r c = PRIME \<and>
           (\<forall>p\<in>set ?seq. (snd p = c \<longrightarrow> fst p = r) \<and> rk r \<le> rk (fst p))"
  proof (intro exI[of _ row] conjI ballI)
    show "row < N" by (rule row(1))
    show "(row, c) \<in> set ?seq" by simp
    show "cell ?m row c = PRIME" by (rule c(2))
    fix p assume h: "p \<in> set ?seq"
    from h consider "p \<in> set seq" | "p = (row, col)" | "p = (row, c)" by auto
    then show "snd p = c \<longrightarrow> fst p = row"
    proof cases
      case 1 then show ?thesis using nocol by blast
    next
      case 2 then show ?thesis by simp
    next
      case 3 then show ?thesis by simp
    qed
    from h consider "p \<in> set seq" | "p = (row, col)" | "p = (row, c)" by auto
    then show "rk row \<le> rk (fst p)"
    proof cases
      case 1
      then have "rk r \<le> rk (fst p)" using rr by blast
      then show ?thesis using rkrow by simp
    next
      case 2 then show ?thesis by simp
    next
      case 3 then show ?thesis by simp
    qed
  qed
  have 7: "\<forall>p\<in>set ?seq. \<forall>q\<in>set ?seq. cell ?m (fst p) (snd p) = PRIME \<longrightarrow>
           cell ?m (fst q) (snd q) = PRIME \<longrightarrow> snd p = snd q \<longrightarrow> p = q"
  proof (intro ballI impI)
    fix p q assume h: "p \<in> set ?seq" "q \<in> set ?seq" "cell ?m (fst p) (snd p) = PRIME"
      "cell ?m (fst q) (snd q) = PRIME" "snd p = snd q"
    have np: "p \<noteq> (row, col)" "q \<noteq> (row, col)" using h(3,4) row(2) by auto
    from h(1) np(1) consider "p \<in> set seq" | "p = (row, c)" by auto
    then show "p = q"
    proof cases
      case 1
      from h(2) np(2) consider "q \<in> set seq" | "q = (row, c)" by auto
      then show ?thesis
      proof cases
        case a: 1
        then show ?thesis using P(7) 1 h(3,4,5) by blast
      next
        case b: 2
        then show ?thesis using nocol[OF 1] h(5) by simp
      qed
    next
      case 2
      from h(2) np(2) consider "q \<in> set seq" | "q = (row, c)" by auto
      then show ?thesis
      proof cases
        case a: 1
        then show ?thesis using nocol[OF a] h(5) 2 by simp
      next
        case b: 2
        then show ?thesis using 2 by simp
      qed
    qed
  qed
  show "path_inv N ?m rk c ?seq" using 1 2 3 4 5 6 7 by (rule path_invI)
qed

lemma step4_loop_done:
  assumes ci: "cover_inv N s rk"
  shows "rows = N \<Longrightarrow> columns = N \<Longrightarrow> msk = mask_m s \<Longrightarrow> path_inv N msk rk col seq \<Longrightarrow>
         path_done N msk (step4_loop msk rows columns col seq)"
proof (induction msk rows columns col seq rule: step4_loop.induct)
  case (1 msk rows columns col seq)
  note si = cover_invD(1)[OF ci]
  note rw = \<open>rows = N\<close> and cl = \<open>columns = N\<close> and mk = \<open>msk = mask_m s\<close>
  have pi: "path_inv N (mask_m s) rk col seq" using 1(5) mk by simp
  show ?case
  proof (cases "find (\<lambda>row. cell msk row col = STAR \<and> (row, col) \<notin> set seq) [0..<rows]")
    case None
    then have nf: "\<forall>row<N. \<not> (cell (mask_m s) row col = STAR \<and> (row, col) \<notin> set seq)"
      unfolding find_upt_None using rw mk by simp
    have "step4_loop msk rows columns col seq = seq"
      by (subst step4_loop.simps) (simp only: None option.simps)
    then show ?thesis using path_exit[OF si pi nf] mk by simp
  next
    case (Some row)
    then have row: "row < N" "cell (mask_m s) row col = STAR"
      unfolding find_upt_Some using rw mk by simp_all
    note X = path_extend[OF ci pi row]
    show ?thesis
    proof (cases "find (\<lambda>c. cell msk row c = PRIME \<and> (row, c) \<notin> set (seq @ [(row, col)]))
                    [0..<columns]")
      case None
      then have "\<forall>c<N. \<not> (cell (mask_m s) row c = PRIME \<and> (row, c) \<notin> set (seq @ [(row, col)]))"
        unfolding find_upt_None using cl mk by simp
      then have False using X(1) X(3) by blast
      then show ?thesis ..
    next
      case c: (Some c)
      then have cc: "c < N" "cell (mask_m s) row c = PRIME"
        unfolding find_upt_Some using cl mk by simp_all
      have e: "step4_loop msk rows columns col seq =
               step4_loop msk rows columns c (seq @ [(row, col)] @ [(row, c)])"
        by (subst step4_loop.simps) (simp only: Some c option.simps)
      have "path_inv N msk rk c (seq @ [(row, col)] @ [(row, c)])"
        using X(4)[OF cc] mk by simp
      from 1(1)[OF Some c rw cl mk this] show ?thesis unfolding e .
    qed
  qed
qed

text \<open>The first element of the sequence is the primed zero saved by step 3.\<close>

lemma path_start:
  assumes "r < N" "c < N" "cell msk r c = PRIME" "\<forall>j<N. cell msk r j \<noteq> STAR"
  shows "path_inv N msk rk c [(r, c)]"
  using assms by (intro path_invI) auto

lemma flip_cell_cell:
  "cell (flip_cell p msk) i j = (if (i, j) = p then flip_mark (cell msk i j) else cell msk i j)"
  "n_rows (flip_cell p msk) = n_rows msk" "n_cols (flip_cell p msk) = n_cols msk"
  unfolding flip_cell_def flip_mark_def by (cases p; cases "cell msk (fst p) (snd p)"; auto)+

lemma fold_flip_cell:
  "n_rows (fold flip_cell seq msk) = n_rows msk \<and> n_cols (fold flip_cell seq msk) = n_cols msk \<and>
   (distinct seq \<longrightarrow> cell (fold flip_cell seq msk) i j =
      (if (i, j) \<in> set seq then flip_mark (cell msk i j) else cell msk i j))"
proof (induction seq arbitrary: msk)
  case Nil
  show ?case by simp
next
  case (Cons p seq)
  show ?case using Cons.IH[of "flip_cell p msk"] by (auto simp: flip_cell_cell)
qed

lemma erase_primes_simps [simp]:
  "n_rows (erase_primes msk) = n_rows msk" "n_cols (erase_primes msk) = n_cols msk"
  "cell (erase_primes msk) i j = (if cell msk i j = PRIME then NORMAL else cell msk i j)"
  unfolding erase_primes_def by simp_all

text \<open>The marks after step 4, in terms of the sequence.\<close>

lemma step4_mask:
  assumes "distinct seq"
  shows "cell (erase_primes (fold flip_cell seq msk)) i j = STAR \<longleftrightarrow>
           ((i, j) \<in> set seq \<and> cell msk i j = PRIME) \<or> ((i, j) \<notin> set seq \<and> cell msk i j = STAR)"
    and "cell (erase_primes (fold flip_cell seq msk)) i j \<noteq> PRIME"
  using assms fold_flip_cell[of seq msk i j]
  by (cases "cell msk i j"; auto simp: flip_mark_def)+

lemma path_doneD:
  assumes "path_done N msk seq"
  shows "distinct seq"
    and "\<forall>p\<in>set seq. fst p < N \<and> snd p < N \<and>
           (cell msk (fst p) (snd p) = STAR \<or> cell msk (fst p) (snd p) = PRIME)"
    and "length (filter (\<lambda>p. cell msk (fst p) (snd p) = PRIME) seq) =
        Suc (length (filter (\<lambda>p. cell msk (fst p) (snd p) = STAR) seq))"
    and "\<forall>p\<in>set seq. cell msk (fst p) (snd p) = PRIME \<longrightarrow>
           (\<forall>j<N. cell msk (fst p) j = STAR \<longrightarrow> (fst p, j) \<in> set seq)"
    and "\<forall>p\<in>set seq. cell msk (fst p) (snd p) = PRIME \<longrightarrow>
           (\<forall>i<N. cell msk i (snd p) = STAR \<longrightarrow> (i, snd p) \<in> set seq)"
    and "\<forall>p\<in>set seq. \<forall>q\<in>set seq. cell msk (fst p) (snd p) = PRIME \<longrightarrow>
           cell msk (fst q) (snd q) = PRIME \<longrightarrow> snd p = snd q \<longrightarrow> p = q"
proof -
  note c = assms[unfolded path_done_def]
  show "distinct seq" using c by (elim conjE)
  show "\<forall>p\<in>set seq. fst p < N \<and> snd p < N \<and>
           (cell msk (fst p) (snd p) = STAR \<or> cell msk (fst p) (snd p) = PRIME)"
    using c by (elim conjE)
  show "length (filter (\<lambda>p. cell msk (fst p) (snd p) = PRIME) seq) =
        Suc (length (filter (\<lambda>p. cell msk (fst p) (snd p) = STAR) seq))"
    using c by (elim conjE)
  show "\<forall>p\<in>set seq. cell msk (fst p) (snd p) = PRIME \<longrightarrow>
           (\<forall>j<N. cell msk (fst p) j = STAR \<longrightarrow> (fst p, j) \<in> set seq)"
    using c by (elim conjE)
  show "\<forall>p\<in>set seq. cell msk (fst p) (snd p) = PRIME \<longrightarrow>
           (\<forall>i<N. cell msk i (snd p) = STAR \<longrightarrow> (i, snd p) \<in> set seq)"
    using c by (elim conjE)
  show "\<forall>p\<in>set seq. \<forall>q\<in>set seq. cell msk (fst p) (snd p) = PRIME \<longrightarrow>
           cell msk (fst q) (snd q) = PRIME \<longrightarrow> snd p = snd q \<longrightarrow> p = q"
    using c by (elim conjE)
qed

lemma step4_star_inv:
  assumes si: "star_inv N msk"
    and e: "\<forall>i<N. \<forall>j<N. \<forall>j'<N. cell msk i j = PRIME \<longrightarrow> cell msk i j' = PRIME \<longrightarrow> j = j'"
    and pd: "path_done N msk seq"
  shows "star_inv N (erase_primes (fold flip_cell seq msk))"
proof -
  let ?m = "erase_primes (fold flip_cell seq msk)"
  note D = path_doneD[OF pd]
  note M = step4_mask(1)[OF D(1), of msk]
  show ?thesis unfolding star_inv_def
  proof (intro conjI allI impI)
    fix i j j' assume h: "i < N" "j < N" "j' < N" "cell ?m i j = STAR" "cell ?m i j' = STAR"
    have a: "((i, j) \<in> set seq \<and> cell msk i j = PRIME) \<or> ((i, j) \<notin> set seq \<and> cell msk i j = STAR)"
      using h(4) M by blast
    have b: "((i, j') \<in> set seq \<and> cell msk i j' = PRIME) \<or> ((i, j') \<notin> set seq \<and> cell msk i j' = STAR)"
      using h(5) M by blast
    have x: False if "(i, j) \<in> set seq" "cell msk i j = PRIME" "(i, j') \<notin> set seq"
      "cell msk i j' = STAR" "j' < N" for j j'
      using D(4) that by force
    show "j = j'" using a b
    proof (elim disjE conjE)
      assume "cell msk i j = PRIME" "cell msk i j' = PRIME"
      then show ?thesis using e h(1,2,3) by blast
    next
      assume "(i, j) \<in> set seq" "cell msk i j = PRIME" "(i, j') \<notin> set seq" "cell msk i j' = STAR"
      then show ?thesis using x h(3) by blast
    next
      assume "(i, j') \<in> set seq" "cell msk i j' = PRIME" "(i, j) \<notin> set seq" "cell msk i j = STAR"
      then show ?thesis using x h(2) by blast
    next
      assume "cell msk i j = STAR" "cell msk i j' = STAR"
      then show ?thesis using si h(1,2,3) unfolding star_inv_def by blast
    qed
  next
    fix i i' j assume h: "i < N" "i' < N" "j < N" "cell ?m i j = STAR" "cell ?m i' j = STAR"
    have a: "((i, j) \<in> set seq \<and> cell msk i j = PRIME) \<or> ((i, j) \<notin> set seq \<and> cell msk i j = STAR)"
      using h(4) M by blast
    have b: "((i', j) \<in> set seq \<and> cell msk i' j = PRIME) \<or> ((i', j) \<notin> set seq \<and> cell msk i' j = STAR)"
      using h(5) M by blast
    have x: False if "(i, j) \<in> set seq" "cell msk i j = PRIME" "(i', j) \<notin> set seq"
      "cell msk i' j = STAR" "i' < N" for i i'
      using D(5) that by force
    show "i = i'" using a b
    proof (elim disjE conjE)
      assume "(i, j) \<in> set seq" "cell msk i j = PRIME" "(i', j) \<in> set seq" "cell msk i' j = PRIME"
      then have "(i, j) = (i', j)" using D(6) by force
      then show ?thesis by simp
    next
      assume "(i, j) \<in> set seq" "cell msk i j = PRIME" "(i', j) \<notin> set seq" "cell msk i' j = STAR"
      then show ?thesis using x h(2) by blast
    next
      assume "(i', j) \<in> set seq" "cell msk i' j = PRIME" "(i, j) \<notin> set seq" "cell msk i j = STAR"
      then show ?thesis using x h(1) by blast
    next
      assume "cell msk i j = STAR" "cell msk i' j = STAR"
      then show ?thesis using si h(1,2,3) unfolding star_inv_def by blast
    qed
  qed
qed

lemma step4_nstars:
  assumes pd: "path_done N msk seq"
  shows "nstars N (erase_primes (fold flip_cell seq msk)) = Suc (nstars N msk)"
proof -
  let ?m = "erase_primes (fold flip_cell seq msk)"
  note D = path_doneD[OF pd]
  note M = step4_mask(1)[OF D(1), of msk]
  let ?Stars = "{(i, j). i < N \<and> j < N \<and> cell msk i j = STAR}"
  let ?P = "set (filter (\<lambda>p. cell msk (fst p) (snd p) = PRIME) seq)"
  let ?S = "set (filter (\<lambda>p. cell msk (fst p) (snd p) = STAR) seq)"
  have fin: "finite ?Stars"
    by (rule finite_subset[of _ "{..<N} \<times> {..<N}"]) auto
  have sub: "?S \<subseteq> ?Stars" using D(2) by auto
  have eq: "{(i, j). i < N \<and> j < N \<and> cell ?m i j = STAR} = (?Stars - ?S) \<union> ?P"
    unfolding M using D(2) by auto
  have dj: "(?Stars - ?S) \<inter> ?P = {}" by auto
  have cP: "card ?P = length (filter (\<lambda>p. cell msk (fst p) (snd p) = PRIME) seq)"
    using D(1) by (intro distinct_card) simp
  have cS: "card ?S = length (filter (\<lambda>p. cell msk (fst p) (snd p) = STAR) seq)"
    using D(1) by (intro distinct_card) simp
  have le: "card ?S \<le> card ?Stars" using fin sub by (rule card_mono)
  have "card ((?Stars - ?S) \<union> ?P) = card (?Stars - ?S) + card ?P"
    using fin dj by (intro card_Un_disjoint) auto
  also have "card (?Stars - ?S) = card ?Stars - card ?S"
    using sub by (intro card_Diff_subset) auto
  finally have "card ((?Stars - ?S) \<union> ?P) = Suc (card ?Stars)"
    using le cP cS D(3) by simp
  then show ?thesis unfolding nstars_def eq .
qed

lemma step4_struct:
  assumes dm: "dims N s" and i4: "inv4 N s"
  shows "struct_inv N (step4 s)"
    and "nstars N (mask_m (snd (step4 s))) = Suc (nstars N (mask_m s))"
proof -
  obtain rk where ci: "cover_inv N s rk" using i4 unfolding inv4_def by blast
  have sv: "saverow_m s < N" "savecol_m s < N"
    "cell (mask_m s) (saverow_m s) (savecol_m s) = PRIME"
    "\<forall>j<N. cell (mask_m s) (saverow_m s) j \<noteq> STAR"
    using i4 unfolding inv4_def by blast+
  have d: "n_rows (matrix_m s) = N" "n_cols (matrix_m s) = N" using dm unfolding dims_def by auto
  define seq where "seq = step4_loop (mask_m s) N N (savecol_m s) [(saverow_m s, savecol_m s)]"
  have ps: "path_inv N (mask_m s) rk (savecol_m s) [(saverow_m s, savecol_m s)]"
    using sv by (rule path_start)
  have pd: "path_done N (mask_m s) seq"
    unfolding seq_def using step4_loop_done[OF ci refl refl refl ps] .
  have m: "mask_m (snd (step4 s)) = erase_primes (fold flip_cell seq (mask_m s))"
    "row_mask_m (snd (step4 s)) = (\<lambda>i. False)" "col_mask_m (snd (step4 s)) = (\<lambda>j. False)"
    "fst (step4 s) = 2" "matrix_m (snd (step4 s)) = matrix_m s"
    unfolding step4_def seq_def d by (simp_all add: Let_def)
  note si = cover_invD(1)[OF ci] and e = cover_invD(6)[OF ci]
  have 1: "star_inv N (mask_m (snd (step4 s)))"
    unfolding m using step4_star_inv[OF si e pd] .
  have 2: "\<forall>i<N. \<forall>j<N. cell (mask_m (snd (step4 s))) i j \<noteq> PRIME"
    unfolding m using step4_mask(2)[OF path_doneD(1)[OF pd]] by blast
  have 3: "dims N (snd (step4 s))"
    using dm unfolding dims_def m by (simp add: fold_flip_cell)
  have "inv2 N (snd (step4 s))" unfolding inv2_def using 1 2 m(2,3) by simp
  then show "struct_inv N (step4 s)" unfolding struct_inv_def using 3 m(4) by simp
  show "nstars N (mask_m (snd (step4 s))) = Suc (nstars N (mask_m s))"
    unfolding m using step4_nstars[OF pd] .
qed

lemma struct_inv_dispatch:
  assumes "struct_inv N c"
  shows "struct_inv N (dispatch c)"
proof -
  have dm: "dims N (snd c)" using assms unfolding struct_inv_def by simp
  consider "fst c = 0" | "fst c = 1" | "fst c = 2" | "fst c = 3" | "fst c = 4" | "fst c = 5"
    using assms unfolding struct_inv_def by (auto split: if_splits)
  then show ?thesis
  proof cases
    case 1
    then have "dispatch c = c" unfolding dispatch_def by simp
    then show ?thesis using assms by simp
  next
    case 2
    then have "inv2 N (snd c)" using assms unfolding struct_inv_def by simp
    from step1_struct[OF dm this] show ?thesis using 2 unfolding dispatch_def by simp
  next
    case 3
    then have "inv2 N (snd c)" using assms unfolding struct_inv_def by simp
    from step2_struct[OF dm this] show ?thesis using 3 unfolding dispatch_def by simp
  next
    case 4
    then have "inv3 N (snd c)" using assms unfolding struct_inv_def by simp
    from step3_struct[OF dm this] show ?thesis using 4 unfolding dispatch_def by simp
  next
    case 5
    then have "inv4 N (snd c)" using assms unfolding struct_inv_def by simp
    from step4_struct(1)[OF dm this] show ?thesis using 5 unfolding dispatch_def by simp
  next
    case 6
    then have "inv3 N (snd c)" using assms unfolding struct_inv_def by simp
    from step5_struct[OF dm this] show ?thesis using 6 unfolding dispatch_def by simp
  qed
qed

lemma struct_inv_funpow:
  assumes "struct_inv N c"
  shows "struct_inv N ((dispatch ^^ k) c)"
  using assms by (induction k) (auto intro: struct_inv_dispatch)

lemma struct_inv_star_inv:
  assumes "struct_inv N c"
  shows "star_inv N (mask_m (snd c))"
proof -
  consider "fst c = 0" | "fst c = 1 \<or> fst c = 2" | "fst c = 3 \<or> fst c = 5" | "fst c = 4"
    using assms unfolding struct_inv_def by (auto split: if_splits)
  then show ?thesis
  proof cases
    case 1 then show ?thesis using assms unfolding struct_inv_def inv0_def by simp
  next
    case 2 then show ?thesis using assms unfolding struct_inv_def inv2_def by auto
  next
    case 3
    then have "inv3 N (snd c)" using assms unfolding struct_inv_def by auto
    then show ?thesis unfolding inv3_def using cover_invD(1) by blast
  next
    case 4
    then have "inv4 N (snd c)" using assms unfolding struct_inv_def by auto
    then show ?thesis unfolding inv4_def using cover_invD(1) by blast
  qed
qed

lemma filter_upt_le1:
  assumes "\<forall>j<n. \<forall>j'<n. P j \<longrightarrow> P j' \<longrightarrow> j = j'"
  shows "length (filter P [0..<n]) \<le> 1"
proof -
  have d: "distinct (filter P [0..<n])" by simp
  have "card (set (filter P [0..<n])) \<le> Suc 0"
    using assms by (subst card_le_Suc0_iff_eq) auto
  then show ?thesis using distinct_card[OF d] by simp
qed

lemma star_inv_unique:
  assumes "star_inv N msk" "n_rows msk = N" "n_cols msk = N"
  shows "star_unique msk"
proof -
  have 1: "length (filter (\<lambda>j. cell msk i j = STAR) [0..<N]) \<le> 1" if "i < N" for i
    using assms(1) that unfolding star_inv_def by (intro filter_upt_le1) blast
  have 2: "length (filter (\<lambda>i. cell msk i j = STAR) [0..<N]) \<le> 1" if "j < N" for j
    using assms(1) that unfolding star_inv_def by (intro filter_upt_le1) blast
  show ?thesis unfolding star_unique_def assms(2,3) list_all_iff using 1 2 by simp
qed

lemma prepare_dims:
  assumes "prepare m s = Inr s0"
  shows "dims (max (n_rows m) (n_cols m)) s0"
    and "\<forall>i j. cell (mask_m s0) i j = NORMAL" "row_mask_m s0 = (\<lambda>i. False)"
    and "col_mask_m s0 = (\<lambda>j. False)"
proof -
  let ?N = "max (n_rows m) (n_cols m)"
  obtain m1 where m1: "pad_square m = Inr m1"
    using assms unfolding prepare_def by (auto simp: Let_def split: sum.splits)
  obtain m2 where m2: "replace_inf m1 = Inr m2"
    using assms m1 unfolding prepare_def by (auto simp: Let_def split: sum.splits)
  have d1: "n_rows m1 = ?N \<and> n_cols m1 = ?N"
    using m1 unfolding pad_square_def
    by (auto simp: Let_def is_square_def fill_cols_def fill_rows_def resize_def
             split: if_splits sum.splits)
  have d2: "n_rows m2 = ?N \<and> n_cols m2 = ?N"
    using m2 d1 unfolding replace_inf_def by (auto split: if_splits sum.splits)
  have s0: "s0 = s\<lparr>matrix_m := sub_col_min (sub_row_min m2),
                  mask_m := \<lparr>n_rows = ?N, n_cols = ?N, cell = (\<lambda>i j. NORMAL)\<rparr>,
                  row_mask_m := (\<lambda>i. False), col_mask_m := (\<lambda>j. False)\<rparr>"
    using assms m1 m2 unfolding prepare_def by (simp add: Let_def)
  show "dims ?N s0" unfolding s0 dims_def using d2 by simp
  show "\<forall>i j. cell (mask_m s0) i j = NORMAL" "row_mask_m s0 = (\<lambda>i. False)"
    "col_mask_m s0 = (\<lambda>j. False)" unfolding s0 by simp_all
qed

lemma prepare_struct_inv:
  assumes "prepare m s = Inr s0"
  shows "struct_inv (max (n_rows m) (n_cols m)) (1, s0)"
proof -
  note p = prepare_dims[OF assms]
  have "star_inv (max (n_rows m) (n_cols m)) (mask_m s0)"
    unfolding star_inv_def using p(2) by simp
  then have "inv2 (max (n_rows m) (n_cols m)) s0" unfolding inv2_def using p(2,3,4) by simp
  then show ?thesis unfolding struct_inv_def using p(1) by simp
qed

text \<open>
  Claim C5: in every configuration of a \<open>solve\<close> run (before step 1 and after each
  execution of a step) the mask holds at most one STAR in every row and in every column.
\<close>

theorem star_unique_throughout:
  "prepare m s = Inr s0 \<Longrightarrow> star_unique (mask_m (snd ((dispatch ^^ k) (1, s0))))"
proof -
  assume p: "prepare m s = Inr s0"
  let ?N = "max (n_rows m) (n_cols m)"
  have "struct_inv ?N ((dispatch ^^ k) (1, s0))"
    using prepare_struct_inv[OF p] by (rule struct_inv_funpow)
  then have "star_inv ?N (mask_m (snd ((dispatch ^^ k) (1, s0))))"
    and "dims ?N (snd ((dispatch ^^ k) (1, s0)))"
    using struct_inv_star_inv unfolding struct_inv_def by blast+
  then show ?thesis using star_inv_unique unfolding dims_def by blast
qed

end
